theory Spec2Isabelle
  imports Main
begin

section \<open>Data model of \<open>othello.py\<close>\<close>

text \<open>
  \<open>class Color(enum.Enum)\<close> has the two members \<open>BLACK\<close> and \<open>WHITE\<close>. A cell of the board
  holds \<open>None\<close> or a colour, so a cell is a \<open>Color option\<close>; the board is a Python list of
  rows, each a list of cells. Coordinates and directions are Python tuples of unbounded
  integers, \<open>(row, col)\<close>.
\<close>

datatype Color = BLACK | WHITE

datatype exn =
    IndexError
  | CoordinateParseError string
  | EOFError
  | KeyboardInterrupt
  | StopIteration

type_synonym cell = "Color option"
type_synonym Board = "cell list list"
type_synonym Coordinate = "int \<times> int"

definition SIZE :: int where
  "SIZE = 8"

text \<open>
  Python list indexing \<open>xs[i]\<close>: an index in \<open>[0, len)\<close> reads that element, an index in
  \<open>[-len, 0)\<close> counts from the end, and every other index raises \<open>IndexError\<close>.
  \<open>py_store\<close> is the assignment \<open>xs[i] = v\<close> under the same rule.
\<close>

definition py_index :: "'a list \<Rightarrow> int \<Rightarrow> exn + 'a" where
  "py_index xs i =
     (if 0 \<le> i \<and> i < int (length xs) then Inr (xs ! nat i)
      else if - int (length xs) \<le> i \<and> i < 0 then Inr (xs ! nat (i + int (length xs)))
      else Inl IndexError)"

definition py_store :: "'a list \<Rightarrow> int \<Rightarrow> 'a \<Rightarrow> exn + 'a list" where
  "py_store xs i v =
     (if 0 \<le> i \<and> i < int (length xs) then Inr (xs[nat i := v])
      else if - int (length xs) \<le> i \<and> i < 0 then Inr (xs[nat (i + int (length xs)) := v])
      else Inl IndexError)"

text \<open>\<open>board[row][col]\<close> and \<open>board[row][col] = v\<close>. The rows of the board that \<open>play_game\<close>
  builds are eight separate lists, so the board is modelled by value.\<close>

definition board_get :: "Board \<Rightarrow> int \<Rightarrow> int \<Rightarrow> exn + cell" where
  "board_get board row col =
     (case py_index board row of
        Inl e \<Rightarrow> Inl e
      | Inr r \<Rightarrow> py_index r col)"

definition board_set :: "Board \<Rightarrow> int \<Rightarrow> int \<Rightarrow> cell \<Rightarrow> exn + Board" where
  "board_set board row col v =
     (case py_index board row of
        Inl e \<Rightarrow> Inl e
      | Inr r \<Rightarrow>
          (case py_store r col v of
             Inl e \<Rightarrow> Inl e
           | Inr r' \<Rightarrow> py_store board row r'))"

section \<open>The rules engine\<close>

definition opposite :: "Color \<Rightarrow> Color" where
  "opposite color = (if color = WHITE then BLACK else WHITE)"

text \<open>
  \<open>find_adjacent\<close>: the eight neighbours in the order of the source's list; an \<open>IndexError\<close>
  raised by \<open>board[adj_row][adj_col]\<close> is caught and the loop goes on.
\<close>

definition adjacents :: "Coordinate \<Rightarrow> Coordinate list" where
  "adjacents move =
     [(fst move + 1, snd move),
      (fst move - 1, snd move),
      (fst move, snd move + 1),
      (fst move, snd move - 1),
      (fst move + 1, snd move + 1),
      (fst move + 1, snd move - 1),
      (fst move - 1, snd move + 1),
      (fst move - 1, snd move - 1)]"

fun find_adjacent_loop :: "Board \<Rightarrow> Color \<Rightarrow> Coordinate list \<Rightarrow> bool" where
  "find_adjacent_loop board opposite_color [] = False"
| "find_adjacent_loop board opposite_color ((adj_row, adj_col) # rest) =
     (case board_get board adj_row adj_col of
        Inr c \<Rightarrow> if c = Some opposite_color then True
                 else find_adjacent_loop board opposite_color rest
      | Inl e \<Rightarrow> find_adjacent_loop board opposite_color rest)"

definition find_adjacent :: "Board \<Rightarrow> Coordinate \<Rightarrow> Color \<Rightarrow> bool" where
  "find_adjacent board move color =
     find_adjacent_loop board (opposite color) (adjacents move)"

text \<open>
  \<open>is_flippable_line\<close> is recursive with no bound of its own on the recursion: with the
  direction \<open>(0, 0)\<close> on an opponent's cell it never returns. The result is therefore an
  option, \<open>None\<close> for a call that does not return; \<open>Some (Inl e)\<close> is a raised exception.
\<close>

partial_function (option) is_flippable_line ::
  "Board \<Rightarrow> Coordinate \<Rightarrow> Color \<Rightarrow> Coordinate \<Rightarrow> bool \<Rightarrow> (exn + bool) option" where
  "is_flippable_line board move color direction found_opponent =
     (let row = fst move + fst direction;
          col = snd move + snd direction
      in if \<not> (0 \<le> row \<and> row < SIZE \<and> 0 \<le> col \<and> col < SIZE) then Some (Inr False)
         else case board_get board row col of
                Inl e \<Rightarrow> Some (Inl e)
              | Inr c \<Rightarrow>
                  if c = None then Some (Inr False)
                  else if c = Some color then Some (Inr found_opponent)
                  else is_flippable_line board (row, col) color direction True)"

definition directions :: "Coordinate list" where
  "directions = [(1, 0), (-1, 0), (0, 1), (0, -1), (1, 1), (1, -1), (-1, 1), (-1, -1)]"

fun valid_move_loop ::
  "Board \<Rightarrow> Color \<Rightarrow> Coordinate \<Rightarrow> Coordinate list \<Rightarrow> (exn + bool) option" where
  "valid_move_loop board color move [] = Some (Inr False)"
| "valid_move_loop board color move (direction # rest) =
     (case is_flippable_line board move color direction False of
        None \<Rightarrow> None
      | Some (Inl e) \<Rightarrow> Some (Inl e)
      | Some (Inr True) \<Rightarrow> Some (Inr True)
      | Some (Inr False) \<Rightarrow> valid_move_loop board color move rest)"

definition valid_move :: "Board \<Rightarrow> Color \<Rightarrow> Coordinate \<Rightarrow> (exn + bool) option" where
  "valid_move board color move =
     (if \<not> (0 \<le> fst move \<and> fst move < SIZE \<and> 0 \<le> snd move \<and> snd move < SIZE)
      then Some (Inr False)
      else case board_get board (fst move) (snd move) of
             Inl e \<Rightarrow> Some (Inl e)
           | Inr c \<Rightarrow>
               if c \<noteq> None then Some (Inr False)
               else if \<not> find_adjacent board move color then Some (Inr False)
               else valid_move_loop board color move directions)"

text \<open>\<open>no_valid_moves\<close> scans the 64 coordinates row by row and returns \<open>False\<close> at the first
  valid move.\<close>

fun no_valid_moves_loop ::
  "Board \<Rightarrow> Color \<Rightarrow> Coordinate list \<Rightarrow> (exn + bool) option" where
  "no_valid_moves_loop board color [] = Some (Inr True)"
| "no_valid_moves_loop board color (move # rest) =
     (case valid_move board color move of
        None \<Rightarrow> None
      | Some (Inl e) \<Rightarrow> Some (Inl e)
      | Some (Inr True) \<Rightarrow> Some (Inr False)
      | Some (Inr False) \<Rightarrow> no_valid_moves_loop board color rest)"

definition all_coordinates :: "Coordinate list" where
  "all_coordinates = concat (map (\<lambda>row. map (\<lambda>col. (row, col)) [0 .. SIZE - 1]) [0 .. SIZE - 1])"

definition no_valid_moves :: "Board \<Rightarrow> Color \<Rightarrow> (exn + bool) option" where
  "no_valid_moves board color = no_valid_moves_loop board color all_coordinates"

text \<open>
  \<open>flip_line\<close>, the function nested in \<open>do_flip\<close>: the \<open>while\<close> loop has no bounds check.
  The board is mutated in place in the source; here the loop returns the new board.
\<close>

partial_function (option) flip_line_loop ::
  "Board \<Rightarrow> Color \<Rightarrow> Coordinate \<Rightarrow> int \<Rightarrow> int \<Rightarrow> (exn + Board) option" where
  "flip_line_loop board color direction row col =
     (case board_get board row col of
        Inl e \<Rightarrow> Some (Inl e)
      | Inr c \<Rightarrow>
          if c \<noteq> Some color
          then (case board_set board row col (Some color) of
                  Inl e \<Rightarrow> Some (Inl e)
                | Inr board' \<Rightarrow>
                    flip_line_loop board' color direction
                      (row + fst direction) (col + snd direction))
          else Some (Inr board))"

definition flip_line :: "Board \<Rightarrow> Coordinate \<Rightarrow> Color \<Rightarrow> Coordinate \<Rightarrow> (exn + Board) option" where
  "flip_line board move color direction =
     flip_line_loop board color direction
       (fst move + fst direction) (snd move + snd direction)"

text \<open>
  The same loop with a log of the coordinates at which \<open>board[row][col]\<close> is evaluated by
  the loop condition, oldest first. The log is an observation only: the board computed is
  that of \<open>flip_line_loop\<close> (lemma \<open>flip_line_logged_board\<close>).
\<close>

partial_function (option) flip_line_logged ::
  "Board \<Rightarrow> Color \<Rightarrow> Coordinate \<Rightarrow> int \<Rightarrow> int \<Rightarrow> Coordinate list
     \<Rightarrow> ((exn + Board) \<times> Coordinate list) option" where
  "flip_line_logged board color direction row col log =
     (case board_get board row col of
        Inl e \<Rightarrow> Some (Inl e, log @ [(row, col)])
      | Inr c \<Rightarrow>
          if c \<noteq> Some color
          then (case board_set board row col (Some color) of
                  Inl e \<Rightarrow> Some (Inl e, log @ [(row, col)])
                | Inr board' \<Rightarrow>
                    flip_line_logged board' color direction
                      (row + fst direction) (col + snd direction) (log @ [(row, col)]))
          else Some (Inr board, log @ [(row, col)]))"

fun do_flip_loop ::
  "Board \<Rightarrow> Color \<Rightarrow> Coordinate \<Rightarrow> Coordinate list \<Rightarrow> (exn + Board) option" where
  "do_flip_loop board color move [] = Some (Inr board)"
| "do_flip_loop board color move (direction # rest) =
     (case is_flippable_line board move color direction False of
        None \<Rightarrow> None
      | Some (Inl e) \<Rightarrow> Some (Inl e)
      | Some (Inr True) \<Rightarrow>
          (case flip_line board move color direction of
             None \<Rightarrow> None
           | Some (Inl e) \<Rightarrow> Some (Inl e)
           | Some (Inr board') \<Rightarrow> do_flip_loop board' color move rest)
      | Some (Inr False) \<Rightarrow> do_flip_loop board color move rest)"

definition do_flip :: "Board \<Rightarrow> Color \<Rightarrow> Coordinate \<Rightarrow> (exn + Board) option" where
  "do_flip board color move = do_flip_loop board color move directions"

text \<open>Lines 298 and 299 of \<open>play_game\<close>: the placement, then \<open>do_flip\<close>.\<close>

definition apply_move :: "Board \<Rightarrow> Color \<Rightarrow> Coordinate \<Rightarrow> (exn + Board) option" where
  "apply_move board color move =
     (case board_set board (fst move) (snd move) (Some color) of
        Inl e \<Rightarrow> Some (Inl e)
      | Inr board' \<Rightarrow> do_flip board' color move)"

subsection \<open>Counting and the board's text\<close>

definition is_board_full :: "Board \<Rightarrow> bool" where
  "is_board_full board = list_all (\<lambda>row. list_all (\<lambda>c. c \<noteq> None) row) board"

fun count_row :: "cell list \<Rightarrow> int \<times> int \<Rightarrow> int \<times> int" where
  "count_row [] (black_count, white_count) = (black_count, white_count)"
| "count_row (c # rest) (black_count, white_count) =
     (if c = Some BLACK then count_row rest (black_count + 1, white_count)
      else if c = Some WHITE then count_row rest (black_count, white_count + 1)
      else count_row rest (black_count, white_count))"

fun count_tokens :: "Board \<Rightarrow> int \<times> int \<Rightarrow> int \<times> int" where
  "count_tokens [] counts = counts"
| "count_tokens (row # rest) counts = count_tokens rest (count_row row counts)"

definition count_tokens_and_determine_winner :: "Board \<Rightarrow> string" where
  "count_tokens_and_determine_winner board =
     (case count_tokens board (0, 0) of
        (black_count, white_count) \<Rightarrow>
          if black_count > white_count then ''Black wins!''
          else if white_count > black_count then ''White wins!''
          else ''It's a tie!'')"

fun join :: "string \<Rightarrow> string list \<Rightarrow> string" where
  "join sep [] = []"
| "join sep [x] = x"
| "join sep (x # y # rest) = x @ sep @ join sep (y # rest)"

fun str_of_nat :: "nat \<Rightarrow> string" where
  "str_of_nat n =
     (if n < 10 then [char_of (48 + n)]
      else str_of_nat (n div 10) @ [char_of (48 + n mod 10)])"

definition cell_str :: "cell \<Rightarrow> string" where
  "cell_str position = (case position of None \<Rightarrow> '' '' | Some BLACK \<Rightarrow> ''B'' | Some WHITE \<Rightarrow> ''W'')"

definition board_str :: "Board \<Rightarrow> string" where
  "board_str board =
     ''  '' @ join '' '' (map (\<lambda>i. [char_of (97 + i)]) [0 ..< 8]) @ [CHR 0x0A]
     @ concat (map (\<lambda>(i, row). str_of_nat (i + 1) @ '' '' @ join '' '' (map cell_str row) @ [CHR 0x0A])
                 (enumerate 0 board))"

section \<open>Coordinates from text\<close>

text \<open>
  Strings are lists of characters with code points below 256. \<open>str.lower()\<close> on such a
  character adds 32 to the capital letters \<open>A\<close> to \<open>Z\<close> and to the capital letters of
  Latin-1 (192 to 222 except the multiplication sign 215) and leaves the others;
  \<open>str.rstrip()\<close> removes the trailing white space (tab to carriage return, the four
  separators 28 to 31, the space, and the Latin-1 characters 133 and 160).
\<close>

definition ord :: "char \<Rightarrow> int" where
  "ord c = int (of_char c)"

definition lower_char :: "char \<Rightarrow> char" where
  "lower_char c =
     (let n = (of_char c :: nat)
      in if (65 \<le> n \<and> n \<le> 90) \<or> (192 \<le> n \<and> n \<le> 222 \<and> n \<noteq> 215)
         then char_of (n + 32) else c)"

definition lower :: "string \<Rightarrow> string" where
  "lower s = map lower_char s"

definition is_space :: "char \<Rightarrow> bool" where
  "is_space c =
     (let n = (of_char c :: nat)
      in (9 \<le> n \<and> n \<le> 13) \<or> (28 \<le> n \<and> n \<le> 32) \<or> n = 133 \<or> n = 160)"

definition rstrip :: "string \<Rightarrow> string" where
  "rstrip s = rev (dropWhile is_space (rev s))"

definition parse_coordinate :: "string \<Rightarrow> exn + Coordinate" where
  "parse_coordinate str =
     (if length str \<noteq> 2 then Inl (CoordinateParseError ''Input must be length 2'')
      else let s = lower str;
               row = ord (s ! 1) - ord CHR ''1''
           in if \<not> (0 \<le> row \<and> row < SIZE) then Inl (CoordinateParseError ''Row out of bounds'')
              else let col = ord (s ! 0) - ord CHR ''a''
                   in if \<not> (0 \<le> col \<and> col < SIZE)
                      then Inl (CoordinateParseError ''Col out of bounds'')
                      else Inr (row, col))"

section \<open>The game loop\<close>

text \<open>
  The iterator \<open>input\<close> is a list of what the successive calls \<open>next(input)\<close> do: yield a
  line, or raise. On the exhausted iterator \<open>next\<close> raises \<open>StopIteration\<close>. The state of
  the loop is the local variables \<open>board\<close>, \<open>turn\<close> and \<open>skip\<close>, the rest of the
  input, and the arguments of the calls to \<open>print\<close> so far.
\<close>

datatype feed = Line string | Raises exn

record game =
  g_board :: Board
  g_turn :: Color
  g_skip :: int
  g_input :: "feed list"
  g_output :: "string list"

fun next_input :: "feed list \<Rightarrow> (exn + string) \<times> feed list" where
  "next_input [] = (Inl StopIteration, [])"
| "next_input (Line s # rest) = (Inr s, rest)"
| "next_input (Raises e # rest) = (Inl e, rest)"

definition name_lower :: "Color \<Rightarrow> string" where
  "name_lower color = (case color of BLACK \<Rightarrow> ''black'' | WHITE \<Rightarrow> ''white'')"

definition switch_turn :: "Color \<Rightarrow> Color" where
  "switch_turn turn = (if turn = BLACK then WHITE else BLACK)"

definition print :: "string \<Rightarrow> game \<Rightarrow> game" where
  "print s g = g\<lparr>g_output := g_output g @ [s]\<rparr>"

text \<open>
  One constructor for each way out of the body of \<open>while True\<close>: the four \<open>continue\<close>
  paths (a skipped turn, a coordinate that does not parse, a move that is not valid, a move
  applied), the three \<open>break\<close> paths (two skips, \<open>EOFError\<close>, \<open>KeyboardInterrupt\<close>), and an
  exception that no handler catches and that leaves \<open>play_game\<close>.
\<close>

datatype outcome =
    Skipped game
  | ParseRejected game
  | MoveRejected game
  | MoveApplied game
  | Finished game
  | InputClosed game
  | Interrupted game
  | Uncaught exn

text \<open>The three \<open>except\<close> clauses of the \<open>try\<close> statement.\<close>

definition handlers :: "exn \<Rightarrow> game \<Rightarrow> outcome" where
  "handlers e g =
     (case e of
        CoordinateParseError msg \<Rightarrow> ParseRejected (print [] (print (''Invalid move: '' @ msg) g))
      | EOFError \<Rightarrow> InputClosed (print [] g)
      | KeyboardInterrupt \<Rightarrow> Interrupted (print [] g)
      | IndexError \<Rightarrow> Uncaught e
      | StopIteration \<Rightarrow> Uncaught e)"

text \<open>
  The part of the body after the \<open>try\<close> statement. \<open>valid_board = board.copy()\<close> is a
  shallow copy that \<open>valid_move\<close> only reads, so \<open>valid_move\<close> is given the board itself.
\<close>

definition play_move :: "game \<Rightarrow> Coordinate \<Rightarrow> outcome option" where
  "play_move g move =
     (case valid_move (g_board g) (g_turn g) move of
        None \<Rightarrow> None
      | Some (Inl e) \<Rightarrow> Some (Uncaught e)
      | Some (Inr False) \<Rightarrow> Some (MoveRejected (print ''Invalid move. Try again.'' g))
      | Some (Inr True) \<Rightarrow>
          (case apply_move (g_board g) (g_turn g) move of
             None \<Rightarrow> None
           | Some (Inl e) \<Rightarrow> Some (Uncaught e)
           | Some (Inr board') \<Rightarrow>
               Some (MoveApplied
                 (print [] (g\<lparr>g_board := board', g_turn := switch_turn (g_turn g)\<rparr>)))))"

definition loop_body :: "game \<Rightarrow> outcome option" where
  "loop_body g0 =
     (let g = print (board_str (g_board g0)) g0
      in case no_valid_moves (g_board g) (g_turn g) of
           None \<Rightarrow> None
         | Some (Inl e) \<Rightarrow> Some (handlers e g)
         | Some (Inr True) \<Rightarrow>
             (let g1 = print (name_lower (g_turn g) @ '' has no valid moves. Skipping turn.'') g;
                  g2 = g1\<lparr>g_turn := switch_turn (g_turn g1)\<rparr>;
                  g3 = print [] g2;
                  g4 = g3\<lparr>g_skip := g_skip g3 + 1\<rparr>
              in if g_skip g4 \<ge> 2
                 then Some (Finished (print (count_tokens_and_determine_winner (g_board g4)) g4))
                 else Some (Skipped g4))
         | Some (Inr False) \<Rightarrow>
             (let g1 = g\<lparr>g_skip := 0\<rparr>;
                  g2 = print (''Enter move for '' @ name_lower (g_turn g1) @ '': '') g1
              in case next_input (g_input g2) of
                   (Inl e, rest) \<Rightarrow> Some (handlers e (g2\<lparr>g_input := rest\<rparr>))
                 | (Inr str, rest) \<Rightarrow>
                     (case parse_coordinate (rstrip str) of
                        Inl e \<Rightarrow> Some (handlers e (g2\<lparr>g_input := rest\<rparr>))
                      | Inr move \<Rightarrow> play_move (g2\<lparr>g_input := rest\<rparr>) move)))"

text \<open>The loop: it goes on after each \<open>continue\<close> path and after a move applied.\<close>

partial_function (option) game_loop :: "game \<Rightarrow> outcome option" where
  "game_loop g =
     (case loop_body g of
        None \<Rightarrow> None
      | Some (Skipped g') \<Rightarrow> game_loop g'
      | Some (ParseRejected g') \<Rightarrow> game_loop g'
      | Some (MoveRejected g') \<Rightarrow> game_loop g'
      | Some (MoveApplied g') \<Rightarrow> game_loop g'
      | Some (Finished g') \<Rightarrow> Some (Finished g')
      | Some (InputClosed g') \<Rightarrow> Some (InputClosed g')
      | Some (Interrupted g') \<Rightarrow> Some (Interrupted g')
      | Some (Uncaught e) \<Rightarrow> Some (Uncaught e))"

text \<open>The set-up of \<open>play_game\<close>: an empty 8 by 8 board, then the four assignments.\<close>

definition setup_board :: "exn + Board" where
  "setup_board =
     (case board_set (replicate 8 (replicate 8 None)) 3 3 (Some BLACK) of
        Inl e \<Rightarrow> Inl e
      | Inr b1 \<Rightarrow>
          (case board_set b1 3 4 (Some WHITE) of
             Inl e \<Rightarrow> Inl e
           | Inr b2 \<Rightarrow>
               (case board_set b2 4 3 (Some WHITE) of
                  Inl e \<Rightarrow> Inl e
                | Inr b3 \<Rightarrow> board_set b3 4 4 (Some BLACK))))"

definition initial_game :: "Board \<Rightarrow> feed list \<Rightarrow> game" where
  "initial_game board inp =
     \<lparr>g_board = board, g_turn = BLACK, g_skip = 0, g_input = inp, g_output = []\<rparr>"

definition play_game :: "feed list \<Rightarrow> outcome option" where
  "play_game inp =
     (case setup_board of
        Inl e \<Rightarrow> Some (Uncaught e)
      | Inr board \<Rightarrow> game_loop (initial_game board inp))"

section \<open>Notions used to state the properties\<close>

text \<open>
  A coordinate is on the board when both components are in \<open>[0, SIZE)\<close>; \<open>at\<close> reads
  \<open>board[row][col]\<close> at a coordinate; the board is well formed when it has eight rows of
  eight cells, as every board that \<open>play_game\<close> holds.
\<close>

definition on_board :: "Coordinate \<Rightarrow> bool" where
  "on_board p = (0 \<le> fst p \<and> fst p < SIZE \<and> 0 \<le> snd p \<and> snd p < SIZE)"

definition at :: "Board \<Rightarrow> Coordinate \<Rightarrow> exn + cell" where
  "at board p = board_get board (fst p) (snd p)"

definition wf_board :: "Board \<Rightarrow> bool" where
  "wf_board board = (length board = 8 \<and> list_all (\<lambda>row. length row = 8) board)"

text \<open>The board after the set-up of \<open>play_game\<close>, written out.\<close>

definition initial_board :: Board where
  "initial_board =
     [ [None, None, None, None, None, None, None, None],
       [None, None, None, None, None, None, None, None],
       [None, None, None, None, None, None, None, None],
       [None, None, None, Some BLACK, Some WHITE, None, None, None],
       [None, None, None, Some WHITE, Some BLACK, None, None, None],
       [None, None, None, None, None, None, None, None],
       [None, None, None, None, None, None, None, None],
       [None, None, None, None, None, None, None, None] ]"

text \<open>
  The \<open>i\<close>-th cell from \<open>move\<close> in a direction. \<open>opp_run\<close> says that the first \<open>k\<close> cells
  of the ray are on the board and hold the opponent's colour and that the next one is on
  the board and holds the mover's colour.
\<close>

definition ray :: "Coordinate \<Rightarrow> Coordinate \<Rightarrow> nat \<Rightarrow> Coordinate" where
  "ray move direction i =
     (fst move + int i * fst direction, snd move + int i * snd direction)"

definition opp_run :: "Board \<Rightarrow> Color \<Rightarrow> Coordinate \<Rightarrow> Coordinate \<Rightarrow> nat \<Rightarrow> bool" where
  "opp_run board color move direction k =
     ((\<forall>i \<in> {1 .. k}. on_board (ray move direction i)
          \<and> at board (ray move direction i) = Inr (Some (opposite color)))
      \<and> on_board (ray move direction (Suc k))
      \<and> at board (ray move direction (Suc k)) = Inr (Some color))"

text \<open>
  The legality rule in the spec's words. A direction forms a flippable line when, walking
  outward from the coordinate, one or more cells of the opponent's colour are immediately
  followed by a cell of the mover's colour, all of them on the board. A move is legal when
  the coordinate is on the board, its cell is empty, and one of the eight directions forms
  a flippable line.
\<close>

definition spec_flippable_line :: "Board \<Rightarrow> Color \<Rightarrow> Coordinate \<Rightarrow> Coordinate \<Rightarrow> bool" where
  "spec_flippable_line board color coord direction =
     (\<exists>k. 1 \<le> k \<and> opp_run board color coord direction k)"

definition spec_is_legal_move :: "Board \<Rightarrow> Color \<Rightarrow> Coordinate \<Rightarrow> bool" where
  "spec_is_legal_move board color coord =
     (on_board coord \<and> at board coord = Inr None
      \<and> (\<exists>direction \<in> set directions. spec_flippable_line board color coord direction))"

text \<open>\<open>valid_move\<close> with the call of \<open>find_adjacent\<close> taken out, for the comparison with
  \<open>valid_move\<close>.\<close>

definition valid_move_without_find_adjacent ::
  "Board \<Rightarrow> Color \<Rightarrow> Coordinate \<Rightarrow> (exn + bool) option" where
  "valid_move_without_find_adjacent board color move =
     (if \<not> (0 \<le> fst move \<and> fst move < SIZE \<and> 0 \<le> snd move \<and> snd move < SIZE)
      then Some (Inr False)
      else case board_get board (fst move) (snd move) of
             Inl e \<Rightarrow> Some (Inl e)
           | Inr c \<Rightarrow>
               if c \<noteq> None then Some (Inr False)
               else valid_move_loop board color move directions)"

text \<open>A board with a white disc on the top row's far side: column d holds White on rows 2
  and 8 and Black on row 3.\<close>

definition wrap_board :: Board where
  "wrap_board =
     [ [None, None, None, None, None, None, None, None],
       [None, None, None, Some WHITE, None, None, None, None],
       [None, None, None, Some BLACK, None, None, None, None],
       [None, None, None, None, None, None, None, None],
       [None, None, None, None, None, None, None, None],
       [None, None, None, None, None, None, None, None],
       [None, None, None, None, None, None, None, None],
       [None, None, None, Some WHITE, None, None, None, None] ]"

text \<open>The move tokens of the spec: a column letter \<open>a\<close> to \<open>h\<close> in either case, then a row
  digit \<open>1\<close> to \<open>8\<close>, and nothing else.\<close>

definition is_move_token :: "string \<Rightarrow> bool" where
  "is_move_token s =
     (case s of
        [x, y] \<Rightarrow> x \<in> set ''abcdefghABCDEFGH'' \<and> y \<in> set ''12345678''
      | _ \<Rightarrow> False)"

text \<open>
  The board with the cells of a list set to a value, one list update each, and the cells
  that a move flips: in each of the eight directions that holds a run of \<open>k \<ge> 1\<close> opponent
  cells closed by a cell of the mover, the \<open>k\<close> cells of the run.
\<close>

fun set_cells :: "Board \<Rightarrow> Coordinate list \<Rightarrow> cell \<Rightarrow> Board" where
  "set_cells board [] v = board"
| "set_cells board (p # ps) v =
     set_cells (board[nat (fst p) := (board ! nat (fst p))[nat (snd p) := v] ]) ps v"

definition line_cells :: "Board \<Rightarrow> Color \<Rightarrow> Coordinate \<Rightarrow> Coordinate \<Rightarrow> Coordinate set" where
  "line_cells board color coord direction =
     {ray coord direction i | k i. 1 \<le> k \<and> opp_run board color coord direction k \<and> 1 \<le> i \<and> i \<le> k}"

definition flipped_cells :: "Board \<Rightarrow> Color \<Rightarrow> Coordinate \<Rightarrow> Coordinate set" where
  "flipped_cells board color coord =
     (\<Union>direction \<in> set directions. line_cells board color coord direction)"

text \<open>
  The number of discs on a board, in all and of each colour, and the set of the occupied
  coordinates of the board.
\<close>

definition occupied :: "Board \<Rightarrow> nat" where
  "occupied board = length (filter (\<lambda>c. c \<noteq> None) (concat board))"

definition black_count :: "Board \<Rightarrow> nat" where
  "black_count board = length (filter (\<lambda>c. c = Some BLACK) (concat board))"

definition white_count :: "Board \<Rightarrow> nat" where
  "white_count board = length (filter (\<lambda>c. c = Some WHITE) (concat board))"

definition occupied_cells :: "Board \<Rightarrow> Coordinate set" where
  "occupied_cells board = {p. on_board p \<and> at board p \<noteq> Inr None}"

text \<open>
  \<open>reaches inp n g\<close>: in the run of \<open>play_game\<close> on the input \<open>inp\<close>, the loop is at its head
  in state \<open>g\<close> after \<open>n\<close> moves have been applied. \<open>iterate_loop k g n\<close> runs \<open>k\<close> iterations
  of the loop from \<open>g\<close> and counts the moves applied.
\<close>

inductive reaches :: "feed list \<Rightarrow> nat \<Rightarrow> game \<Rightarrow> bool" for inp :: "feed list" where
  start: "setup_board = Inr board \<Longrightarrow> reaches inp 0 (initial_game board inp)"
| skipped: "reaches inp n g \<Longrightarrow> loop_body g = Some (Skipped g') \<Longrightarrow> reaches inp n g'"
| parse_rejected: "reaches inp n g \<Longrightarrow> loop_body g = Some (ParseRejected g') \<Longrightarrow> reaches inp n g'"
| move_rejected: "reaches inp n g \<Longrightarrow> loop_body g = Some (MoveRejected g') \<Longrightarrow> reaches inp n g'"
| move_applied: "reaches inp n g \<Longrightarrow> loop_body g = Some (MoveApplied g') \<Longrightarrow> reaches inp (Suc n) g'"

fun iterate_loop :: "nat \<Rightarrow> game \<Rightarrow> nat \<Rightarrow> (game \<times> nat) option" where
  "iterate_loop 0 g n = Some (g, n)"
| "iterate_loop (Suc k) g n =
     (case loop_body g of
        Some (Skipped g') \<Rightarrow> iterate_loop k g' n
      | Some (ParseRejected g') \<Rightarrow> iterate_loop k g' n
      | Some (MoveRejected g') \<Rightarrow> iterate_loop k g' n
      | Some (MoveApplied g') \<Rightarrow> iterate_loop k g' (Suc n)
      | _ \<Rightarrow> None)"

text \<open>
  Two inputs used as examples: a game of nine moves after which White has no disc left,
  so that neither player can move, and a state whose board is full.
\<close>

definition short_game :: "feed list" where
  "short_game = map Line [''e3'', ''f5'', ''e6'', ''f3'', ''g4'', ''d3'', ''e2'', ''f4'', ''c4'']"

definition full_black_game :: game where
  "full_black_game =
     \<lparr>g_board = replicate 8 (replicate 8 (Some BLACK)), g_turn = WHITE, g_skip = 0,
      g_input = [], g_output = []\<rparr>"

declare is_flippable_line.simps [code]
declare flip_line_loop.simps [code]
declare flip_line_logged.simps [code]
declare game_loop.simps [code]

section \<open>The opening position\<close>

lemma setup_board_eq: "setup_board = Inr initial_board"
  by (simp add: setup_board_def board_set_def py_index_def py_store_def initial_board_def
      numeral_eq_Suc)

lemma initial_board_black_moves:
  "list_all (\<lambda>m. valid_move initial_board BLACK m
       = Some (Inr (m \<in> set [(2, 4), (3, 5), (4, 2), (5, 3)])))
     (List.product [0 .. 7] [0 .. 7])"
  by code_simp

text \<open>
  C1 (as the spec states it): on the board of the set-up the coordinates that
  \<open>valid_move\<close> accepts for Black are d3, c4, f5 and e6, that is \<open>(2,3)\<close>, \<open>(3,2)\<close>,
  \<open>(4,5)\<close> and \<open>(5,4)\<close>. The code rejects d3 and accepts e3: the set-up has Black on d4
  and e5, the mirror image of the position the spec has in mind.
\<close>

theorem C1_counterexample:
  "setup_board = Inr initial_board
   \<and> valid_move initial_board BLACK (2, 3) = Some (Inr False)
   \<and> valid_move initial_board BLACK (2, 4) = Some (Inr True)"
proof -
  have "valid_move initial_board BLACK (2, 3) = Some (Inr False)" by code_simp
  moreover have "valid_move initial_board BLACK (2, 4) = Some (Inr True)" by code_simp
  ultimately show ?thesis using setup_board_eq by simp
qed

text \<open>
  C1 (amended): on the board of the set-up, \<open>valid_move\<close> for Black returns true exactly at
  \<open>(2,4)\<close>, \<open>(3,5)\<close>, \<open>(4,2)\<close> and \<open>(5,3)\<close>, that is e3, f4, c5 and d6, and false at every
  other coordinate.
\<close>

theorem C1_black_opening_moves:
  "valid_move initial_board BLACK coord
     = Some (Inr (coord \<in> {(2, 4), (3, 5), (4, 2), (5, 3)}))"
proof (cases "0 \<le> fst coord \<and> fst coord < 8 \<and> 0 \<le> snd coord \<and> snd coord < 8")
  case False
  then show ?thesis by (auto simp: valid_move_def SIZE_def)
next
  case True
  then have "coord \<in> set (List.product [0 .. 7] [0 .. 7])"
    by (cases coord) simp
  with initial_board_black_moves show ?thesis
    unfolding list_all_iff by fastforce
qed

theorem C1_black_opening_moves_witness:
  "valid_move initial_board BLACK (5, 3) = Some (Inr True)
   \<and> valid_move initial_board BLACK (5, 4) = Some (Inr False)"
  using C1_black_opening_moves [of "(5, 3)"] C1_black_opening_moves [of "(5, 4)"] by simp

section \<open>Flippable lines\<close>

lemma ray_0 [simp]: "ray m d 0 = m" by (simp add: ray_def)
lemma ray_1: "ray m d (Suc 0) = (fst m + fst d, snd m + snd d)" by (simp add: ray_def)
lemma ray_Suc: "ray (ray m d (Suc 0)) d i = ray m d (Suc i)"
  by (simp add: ray_def algebra_simps)

lemma not_color_opposite: "c \<noteq> None \<Longrightarrow> c \<noteq> Some color \<Longrightarrow> c = Some (opposite color)"
  by (cases c; cases color; simp add: opposite_def; metis Color.exhaust)

lemma opp_run_shift:
  assumes "on_board (ray m d (Suc 0))" "at b (ray m d (Suc 0)) = Inr (Some (opposite c))"
    and "opp_run b c (ray m d (Suc 0)) d k"
  shows "opp_run b c m d (Suc k)"
  unfolding opp_run_def
proof (intro conjI ballI)
  fix i assume i: "i \<in> {1 .. Suc k}"
  show "on_board (ray m d i)"
  proof (cases "i = 1")
    case True then show ?thesis using assms(1) by simp
  next
    case False
    then obtain j where j: "i = Suc j" "j \<in> {1..k}" using i by (cases i) auto
    then show ?thesis using assms(3) by (simp add: opp_run_def ray_Suc)
  qed
  show "at b (ray m d i) = Inr (Some (opposite c))"
  proof (cases "i = 1")
    case True then show ?thesis using assms(2) by simp
  next
    case False
    then obtain j where j: "i = Suc j" "j \<in> {1..k}" using i by (cases i) auto
    then show ?thesis using assms(3) by (simp add: opp_run_def ray_Suc)
  qed
next
  show "on_board (ray m d (Suc (Suc k)))" using assms(3) by (simp add: opp_run_def ray_Suc)
  show "at b (ray m d (Suc (Suc k))) = Inr (Some c)" using assms(3) by (simp add: opp_run_def ray_Suc)
qed

lemma ifl_True_run:
  assumes "is_flippable_line b m c d fo = Some (Inr True)"
  shows "\<exists>k. (fo \<or> 1 \<le> k) \<and> opp_run b c m d k"
proof -
  have "Inr True = (Inr True :: exn + bool) \<longrightarrow> (\<exists>k. (fo \<or> 1 \<le> k) \<and> opp_run b c m d k)"
  proof (rule is_flippable_line.raw_induct
      [where P = "\<lambda>b m c d fo y. y = Inr True \<longrightarrow> (\<exists>k. (fo \<or> 1 \<le> k) \<and> opp_run b c m d k)",
        OF _ assms])
    fix f b m c d fo y
    assume IH: "\<And>b m c d fo y. f b m c d fo = Some y \<Longrightarrow>
                 y = Inr True \<longrightarrow> (\<exists>k. (fo \<or> 1 \<le> k) \<and> opp_run b c m d k)"
      and body: "(let row = fst m + fst d; col = snd m + snd d
          in if \<not> (0 \<le> row \<and> row < SIZE \<and> 0 \<le> col \<and> col < SIZE)
             then Some (Inr False)
             else case board_get b row col of Inl e \<Rightarrow> Some (Inl e)
                  | Inr cl \<Rightarrow>
                      if cl = None then Some (Inr False)
                      else if cl = Some c then Some (Inr fo)
                           else f b (row, col) c d True) = Some y"
    let ?p = "ray m d (Suc 0)"
    show "y = Inr True \<longrightarrow> (\<exists>k. (fo \<or> 1 \<le> k) \<and> opp_run b c m d k)"
    proof
      assume y: "y = Inr True"
      from body y have ob: "on_board ?p"
        by (auto simp: Let_def on_board_def ray_1 split: if_splits)
      from body y ob obtain cl where cl: "at b ?p = Inr cl" "cl \<noteq> None"
        by (auto simp: Let_def on_board_def ray_1 at_def split: if_splits sum.splits)
      show "\<exists>k. (fo \<or> 1 \<le> k) \<and> opp_run b c m d k"
      proof (cases "cl = Some c")
        case True
        with body y ob cl have "fo"
          by (auto simp: Let_def on_board_def ray_1 at_def split: if_splits sum.splits)
        moreover have "opp_run b c m d 0" using ob cl True by (simp add: opp_run_def)
        ultimately show ?thesis by blast
      next
        case False
        with body y ob cl have "f b ?p c d True = Some (Inr True)"
          by (auto simp: Let_def on_board_def ray_1 at_def split: if_splits sum.splits)
        from IH[OF this] obtain k where k: "opp_run b c ?p d k" by auto
        have "cl = Some (opposite c)" using cl False not_color_opposite by blast
        with opp_run_shift[OF ob _ k] cl have "opp_run b c m d (Suc k)" by simp
        then show ?thesis by (intro exI[of _ "Suc k"]) simp
      qed
    qed
  qed
  then show ?thesis by simp
qed

lemma opposite_neq [simp]: "opposite c \<noteq> c" "c \<noteq> opposite c"
  by (cases c; simp add: opposite_def)+

lemma run_ifl_True:
  "opp_run b c m d k \<Longrightarrow> fo \<or> 1 \<le> k \<Longrightarrow> is_flippable_line b m c d fo = Some (Inr True)"
proof (induction k arbitrary: m fo)
  case 0
  then show ?case
    by (subst is_flippable_line.simps) (auto simp: opp_run_def Let_def on_board_def ray_1 at_def)
next
  case (Suc k)
  let ?p = "ray m d (Suc 0)"
  from Suc.prems(1) have ob: "on_board ?p" and cl: "at b ?p = Inr (Some (opposite c))"
    by (auto simp: opp_run_def)
  have "opp_run b c ?p d k"
    using Suc.prems(1) unfolding opp_run_def ray_Suc by auto
  from Suc.IH[OF this, of True] have "is_flippable_line b ?p c d True = Some (Inr True)" by simp
  then show ?case using ob cl
    by (subst is_flippable_line.simps) (auto simp: Let_def on_board_def ray_1 at_def)
qed

lemma py_index_in_range: "0 \<le> i \<Longrightarrow> i < int (length xs) \<Longrightarrow> py_index xs i = Inr (xs ! nat i)"
  by (simp add: py_index_def)

lemma wf_board_row: "wf_board b \<Longrightarrow> 0 \<le> r \<Longrightarrow> r < 8 \<Longrightarrow> length (b ! nat r) = 8"
  by (simp add: wf_board_def list_all_length)

lemma at_wf: "wf_board b \<Longrightarrow> on_board p \<Longrightarrow> at b p = Inr (b ! nat (fst p) ! nat (snd p))"
  using wf_board_row[of b "fst p"]
  by (simp add: at_def board_get_def on_board_def SIZE_def py_index_in_range wf_board_def)

lemma off_board_eventually:
  assumes "d \<noteq> (0, 0)"
  shows "\<exists>n. \<not> on_board (ray m d (Suc n))"
proof -
  have step: "\<exists>n. \<not> (0 \<le> x + int (Suc n) * e \<and> x + int (Suc n) * e < 8)" if e: "e \<noteq> 0" for x e :: int
  proof (cases "0 < e")
    case True
    define n where "n = nat (8 - x)"
    define k where "k = int (Suc n)"
    have "8 - x \<le> k" by (simp add: n_def k_def)
    moreover have "0 \<le> k" by (simp add: k_def)
    then have "k * 1 \<le> k * e" using True by (intro mult_left_mono) auto
    then have "k \<le> k * e" by simp
    ultimately have "8 \<le> x + k * e" by linarith
    then show ?thesis unfolding k_def by (intro exI[of _ n]) simp
  next
    case False
    define n where "n = nat (x + 1)"
    define k where "k = int (Suc n)"
    have "x < k" by (simp add: n_def k_def)
    moreover have "0 \<le> k" by (simp add: k_def)
    then have "k * e \<le> k * (-1)" using False e by (intro mult_left_mono) auto
    then have "k * e \<le> - k" by simp
    ultimately have "x + k * e < 0" by linarith
    then show ?thesis unfolding k_def by (intro exI[of _ n]) simp
  qed
  show ?thesis
  proof (cases "fst d = 0")
    case False
    from step[OF this, of "fst m"] show ?thesis by (auto simp: on_board_def ray_def SIZE_def)
  next
    case True
    with assms have "snd d \<noteq> 0" by (cases d) auto
    from step[OF this, of "snd m"] show ?thesis by (auto simp: on_board_def ray_def SIZE_def)
  qed
qed

lemma ifl_total_aux:
  "wf_board b \<Longrightarrow> \<not> on_board (ray m d (Suc n)) \<Longrightarrow> \<exists>r. is_flippable_line b m c d fo = Some (Inr r)"
proof (induction n arbitrary: m fo)
  case 0
  then show ?case
    by (subst is_flippable_line.simps) (auto simp: Let_def on_board_def ray_1)
next
  case (Suc n)
  let ?p = "ray m d (Suc 0)"
  show ?case
  proof (cases "on_board ?p")
    case False
    then show ?thesis
      by (subst is_flippable_line.simps) (auto simp: Let_def on_board_def ray_1)
  next
    case True
    have "\<not> on_board (ray ?p d (Suc n))" using Suc.prems(2) by (simp add: ray_Suc)
    from Suc.IH[OF Suc.prems(1) this, of True]
    obtain r where r: "is_flippable_line b ?p c d True = Some (Inr r)" by blast
    have at: "board_get b (fst m + fst d) (snd m + snd d) = Inr (b ! nat (fst ?p) ! nat (snd ?p))"
      using at_wf[OF Suc.prems(1) True] by (simp add: at_def ray_1)
    show ?thesis using True r at
      by (subst is_flippable_line.simps) (auto simp: Let_def on_board_def ray_1)
  qed
qed

lemma ifl_total:
  "wf_board b \<Longrightarrow> d \<noteq> (0, 0) \<Longrightarrow> \<exists>r. is_flippable_line b m c d fo = Some (Inr r)"
  using off_board_eventually ifl_total_aux by blast

lemma ifl_eq_spec:
  assumes "wf_board b" "d \<noteq> (0, 0)"
  shows "is_flippable_line b m c d False = Some (Inr (spec_flippable_line b c m d))"
proof -
  from ifl_total[OF assms] obtain r where r: "is_flippable_line b m c d False = Some (Inr r)"
    by blast
  have "r \<longleftrightarrow> spec_flippable_line b c m d"
  proof
    assume r
    with r ifl_True_run[of b m c d False] show "spec_flippable_line b c m d"
      by (auto simp: spec_flippable_line_def)
  next
    assume "spec_flippable_line b c m d"
    then obtain k where "1 \<le> k" "opp_run b c m d k" by (auto simp: spec_flippable_line_def)
    from run_ifl_True[OF this(2), of False] this(1) r show r by simp
  qed
  with r show ?thesis by simp
qed

lemma directions_nonzero: "d \<in> set directions \<Longrightarrow> d \<noteq> (0, 0)"
  by (auto simp: directions_def)

lemma valid_move_loop_spec:
  assumes "wf_board b" "\<forall>d \<in> set ds. d \<noteq> (0, 0)"
  shows "valid_move_loop b c m ds = Some (Inr (\<exists>d \<in> set ds. spec_flippable_line b c m d))"
  using assms(2)
proof (induction ds)
  case Nil
  then show ?case by simp
next
  case (Cons d ds)
  then show ?case using ifl_eq_spec[OF assms(1), of d m c]
    by (cases "spec_flippable_line b c m d") auto
qed

lemma find_adjacent_loop_mem:
  "p \<in> set ps \<Longrightarrow> board_get b (fst p) (snd p) = Inr (Some oc) \<Longrightarrow> find_adjacent_loop b oc ps"
proof (induction ps)
  case Nil
  then show ?case by simp
next
  case (Cons q ps)
  then show ?case by (cases q) (auto split: sum.splits)
qed

lemma directions_cases:
  assumes "d \<in> set directions"
  obtains "d = (1, 0)" | "d = (-1, 0)" | "d = (0, 1)" | "d = (0, -1)"
    | "d = (1, 1)" | "d = (1, -1)" | "d = (-1, 1)" | "d = (-1, -1)"
  using assms unfolding directions_def by fastforce

lemma ray_1_adjacent:
  assumes "d \<in> set directions"
  shows "ray m d (Suc 0) \<in> set (adjacents m)"
  using assms by (cases rule: directions_cases) (simp_all add: adjacents_def ray_1)

lemma flippable_find_adjacent:
  assumes "d \<in> set directions" "spec_flippable_line b c m d"
  shows "find_adjacent b m c"
proof -
  from assms(2) obtain k where k: "1 \<le> k" "opp_run b c m d k"
    by (auto simp: spec_flippable_line_def)
  then have "at b (ray m d (Suc 0)) = Inr (Some (opposite c))"
    by (auto simp: opp_run_def)
  with find_adjacent_loop_mem[OF ray_1_adjacent[OF assms(1), of m], of b "opposite c"]
  show ?thesis by (simp add: find_adjacent_def at_def)
qed


section \<open>Validation of a move\<close>

lemma valid_move_eq_spec:
  assumes "wf_board board"
  shows "valid_move board color coord = Some (Inr (spec_is_legal_move board color coord))"
proof (cases "on_board coord")
  case False
  then show ?thesis by (auto simp: valid_move_def on_board_def spec_is_legal_move_def)
next
  case True
  have loop: "valid_move_loop board color coord directions
      = Some (Inr (\<exists>d \<in> set directions. spec_flippable_line board color coord d))"
    using valid_move_loop_spec[OF assms, of directions] directions_nonzero by blast
  have at: "board_get board (fst coord) (snd coord) = at board coord" by (simp add: at_def)
  obtain cl where cl: "at board coord = Inr cl" using at_wf[OF assms True] by blast
  show ?thesis
  proof (cases "cl = None")
    case False
    with True cl at show ?thesis
      by (auto simp: valid_move_def on_board_def spec_is_legal_move_def)
  next
    case None: True
    show ?thesis
    proof (cases "find_adjacent board coord color")
      case True
      with \<open>on_board coord\<close> cl at None loop show ?thesis
        by (auto simp: valid_move_def on_board_def spec_is_legal_move_def)
    next
      case False
      with flippable_find_adjacent have "\<not> (\<exists>d \<in> set directions. spec_flippable_line board color coord d)"
        by blast
      with False \<open>on_board coord\<close> cl at None show ?thesis
        by (auto simp: valid_move_def on_board_def spec_is_legal_move_def)
    qed
  qed
qed

text \<open>
  C2: on every 8 by 8 board, for every colour and every coordinate, \<open>valid_move\<close> returns
  (without raising) the truth value of the spec's rule: the coordinate is within
  \<open>[0,7] \<times> [0,7]\<close>, its cell is empty, and one of the eight directions holds one or more
  opponent cells immediately followed by a cell of the mover's colour, with no empty cell
  or edge before it; a direction with zero opponent cells does not count.
\<close>

theorem C2_valid_move_spec:
  assumes "wf_board board"
  shows "valid_move board color coord = Some (Inr (spec_is_legal_move board color coord))"
  using assms by (rule valid_move_eq_spec)

lemma wf_initial_board: "wf_board initial_board"
  by (simp add: wf_board_def initial_board_def)

theorem C2_valid_move_spec_witness:
  "wf_board initial_board
   \<and> valid_move initial_board BLACK (2, 4) = Some (Inr True)
   \<and> spec_is_legal_move initial_board BLACK (2, 4)
   \<and> valid_move initial_board BLACK (2, 3) = Some (Inr False)
   \<and> \<not> spec_is_legal_move initial_board BLACK (2, 3)"
proof -
  have a: "valid_move initial_board BLACK (2, 4) = Some (Inr True)" by code_simp
  have b: "valid_move initial_board BLACK (2, 3) = Some (Inr False)" by code_simp
  show ?thesis
    using C2_valid_move_spec [OF wf_initial_board, of BLACK "(2, 4)"]
      C2_valid_move_spec [OF wf_initial_board, of BLACK "(2, 3)"] a b wf_initial_board
    by simp
qed

section \<open>The adjacency check\<close>

lemma find_adjacent_wraps:
  assumes "wf_board board" "fst move = 0" "0 \<le> snd move" "snd move < 8"
    and "at board (7, snd move) = Inr (Some (opposite color))"
  shows "find_adjacent board move color"
proof -
  have "(fst move - 1, snd move) \<in> set (adjacents move)" by (simp add: adjacents_def)
  moreover have "board_get board (fst move - 1) (snd move) = Inr (Some (opposite color))"
    using assms by (simp add: at_def board_get_def py_index_def wf_board_def)
  ultimately show ?thesis
    using find_adjacent_loop_mem [of "(fst move - 1, snd move)" "adjacents move" board "opposite color"]
    by (simp add: find_adjacent_def)
qed

text \<open>
  C10: on every 8 by 8 board, \<open>valid_move\<close> returns what it returns with the call of
  \<open>find_adjacent\<close> removed; whenever \<open>is_flippable_line\<close> returns true for one of the eight
  directions, \<open>find_adjacent\<close> returns true. \<open>find_adjacent\<close> does read across the edge:
  for a move on row 0 the neighbour \<open>(-1, col)\<close> is the cell \<open>(7, col)\<close>, and an opponent's
  disc there makes it return true.
\<close>

theorem C10_find_adjacent_redundant:
  assumes "wf_board board"
  shows "valid_move board color move = valid_move_without_find_adjacent board color move
    \<and> (\<forall>direction \<in> set directions.
          is_flippable_line board move color direction False = Some (Inr True)
          \<longrightarrow> find_adjacent board move color)
    \<and> (fst move = 0 \<and> 0 \<le> snd move \<and> snd move < 8
          \<and> at board (7, snd move) = Inr (Some (opposite color))
        \<longrightarrow> find_adjacent board move color)"
proof (intro conjI ballI impI)
  fix direction
  assume d: "direction \<in> set directions"
    and t: "is_flippable_line board move color direction False = Some (Inr True)"
  from ifl_True_run [OF t] have "spec_flippable_line board color move direction"
    by (auto simp: spec_flippable_line_def)
  with d show "find_adjacent board move color" by (rule flippable_find_adjacent)
next
  assume "fst move = 0 \<and> 0 \<le> snd move \<and> snd move < 8
          \<and> at board (7, snd move) = Inr (Some (opposite color))"
  with assms show "find_adjacent board move color" by (simp add: find_adjacent_wraps)
next
  have loop: "valid_move_loop board color move directions
      = Some (Inr (\<exists>d \<in> set directions. spec_flippable_line board color move d))"
    using valid_move_loop_spec [OF assms, of directions] directions_nonzero by blast
  show "valid_move board color move = valid_move_without_find_adjacent board color move"
  proof (cases "find_adjacent board move color")
    case True
    then show ?thesis by (simp add: valid_move_def valid_move_without_find_adjacent_def)
  next
    case False
    with flippable_find_adjacent
    have "\<not> (\<exists>d \<in> set directions. spec_flippable_line board color move d)" by blast
    with False loop show ?thesis
      by (simp add: valid_move_def valid_move_without_find_adjacent_def split: sum.splits)
  qed
qed

lemma wf_wrap_board: "wf_board wrap_board"
  by (simp add: wf_board_def wrap_board_def)

theorem C10_find_adjacent_redundant_witness:
  "wf_board wrap_board
   \<and> (1, 0) \<in> set directions
   \<and> is_flippable_line wrap_board (0, 3) BLACK (1, 0) False = Some (Inr True)
   \<and> at wrap_board (7, 3) = Inr (Some (opposite BLACK))
   \<and> find_adjacent wrap_board (0, 3) BLACK
   \<and> valid_move wrap_board BLACK (0, 3) = Some (Inr True)
   \<and> valid_move_without_find_adjacent wrap_board BLACK (0, 3) = Some (Inr True)"
proof -
  have a: "is_flippable_line wrap_board (0, 3) BLACK (1, 0) False = Some (Inr True)"
    by code_simp
  have b: "at wrap_board (7, 3) = Inr (Some (opposite BLACK))" by code_simp
  have c: "valid_move wrap_board BLACK (0, 3) = Some (Inr True)" by code_simp
  have d: "(1, 0) \<in> set directions" by (simp add: directions_def)
  show ?thesis
    using C10_find_adjacent_redundant [OF wf_wrap_board, of BLACK "(0, 3)"] a b c d wf_wrap_board
    by auto
qed

section \<open>Parsing a coordinate\<close>

lemma char_eq_code: "x = c \<longleftrightarrow> (of_char x :: nat) = of_char c"
  by simp

lemma letter_codes:
  "x \<in> set ''abcdefghABCDEFGH''
     \<longleftrightarrow> (97 \<le> (of_char x :: nat) \<and> (of_char x :: nat) \<le> 104)
         \<or> (65 \<le> (of_char x :: nat) \<and> (of_char x :: nat) \<le> 72)"
proof -
  define n where "n = (of_char x :: nat)"
  have "x \<in> set ''abcdefghABCDEFGH'' \<longleftrightarrow> n \<in> {97, 98, 99, 100, 101, 102, 103, 104, 65, 66, 67, 68, 69, 70, 71, 72}"
    unfolding n_def by (simp add: char_eq_code [of x])
  also have "\<dots> \<longleftrightarrow> (97 \<le> n \<and> n \<le> 104) \<or> (65 \<le> n \<and> n \<le> 72)"
    by (simp only: insert_iff empty_iff) arith
  finally show ?thesis unfolding n_def .
qed

lemma digit_codes:
  "y \<in> set ''12345678'' \<longleftrightarrow> 49 \<le> (of_char y :: nat) \<and> (of_char y :: nat) \<le> 56"
proof -
  define n where "n = (of_char y :: nat)"
  have "y \<in> set ''12345678'' \<longleftrightarrow> n \<in> {49, 50, 51, 52, 53, 54, 55, 56}"
    unfolding n_def by (simp add: char_eq_code [of y])
  also have "\<dots> \<longleftrightarrow> 49 \<le> n \<and> n \<le> 56"
    by (simp only: insert_iff empty_iff) arith
  finally show ?thesis unfolding n_def .
qed

lemma ord_lower_char:
  "ord (lower_char c) =
     (if (65 \<le> (of_char c :: nat) \<and> (of_char c :: nat) \<le> 90)
         \<or> (192 \<le> (of_char c :: nat) \<and> (of_char c :: nat) \<le> 222 \<and> (of_char c :: nat) \<noteq> 215)
      then ord c + 32 else ord c)"
  by (auto simp: ord_def lower_char_def Let_def)

lemma ord_consts: "ord CHR ''1'' = 49" "ord CHR ''a'' = 97"
  by (simp_all add: ord_def)

lemma row_in_range:
  "0 \<le> ord (lower_char y) - 49 \<and> ord (lower_char y) - 49 < 8 \<longleftrightarrow> y \<in> set ''12345678''"
  unfolding digit_codes ord_lower_char by (auto simp: ord_def)

lemma col_in_range:
  "0 \<le> ord (lower_char x) - 97 \<and> ord (lower_char x) - 97 < 8 \<longleftrightarrow> x \<in> set ''abcdefghABCDEFGH''"
  unfolding letter_codes ord_lower_char by (auto simp: ord_def)

lemma parse_two:
  "parse_coordinate [x, y] =
     (if y \<notin> set ''12345678'' then Inl (CoordinateParseError ''Row out of bounds'')
      else if x \<notin> set ''abcdefghABCDEFGH'' then Inl (CoordinateParseError ''Col out of bounds'')
      else Inr (ord (lower_char y) - 49, ord (lower_char x) - 97))"
proof (cases "y \<in> set ''12345678''")
  case False
  with row_in_range [of y]
  have "\<not> (0 \<le> ord (lower_char y) - 49 \<and> ord (lower_char y) - 49 < 8)" by blast
  with False show ?thesis
    by (simp add: parse_coordinate_def lower_def Let_def SIZE_def ord_consts del: set_simps)
next
  case y: True
  with row_in_range [of y]
  have r: "0 \<le> ord (lower_char y) - 49 \<and> ord (lower_char y) - 49 < 8" by blast
  show ?thesis
  proof (cases "x \<in> set ''abcdefghABCDEFGH''")
    case False
    with col_in_range [of x]
    have "\<not> (0 \<le> ord (lower_char x) - 97 \<and> ord (lower_char x) - 97 < 8)" by blast
    with False y r show ?thesis
      by (simp add: parse_coordinate_def lower_def Let_def SIZE_def ord_consts del: set_simps)
  next
    case True
    with col_in_range [of x]
    have "0 \<le> ord (lower_char x) - 97 \<and> ord (lower_char x) - 97 < 8" by blast
    with True y r show ?thesis
      by (simp add: parse_coordinate_def lower_def Let_def SIZE_def ord_consts del: set_simps)
  qed
qed

lemma parse_other_length:
  "length s \<noteq> 2 \<Longrightarrow> parse_coordinate s = Inl (CoordinateParseError ''Input must be length 2'')"
  by (simp add: parse_coordinate_def)

lemma length_two: "length s = 2 \<longleftrightarrow> (\<exists>x y. s = [x, y])"
  by (cases s; cases "tl s"; auto)

lemma is_move_token_iff:
  "is_move_token s \<longleftrightarrow> (\<exists>x y. s = [x, y] \<and> x \<in> set ''abcdefghABCDEFGH'' \<and> y \<in> set ''12345678'')"
  unfolding is_move_token_def by (auto split: list.splits)

lemma parse_letter_digit:
  assumes "i < 8" "j < 8" "base = 97 \<or> base = 65"
  shows "parse_coordinate [char_of (base + i :: nat), char_of (49 + j :: nat)] = Inr (int j, int i)"
proof -
  let ?x = "char_of (base + i) :: char" and ?y = "char_of (49 + j) :: char"
  have cx: "(of_char ?x :: nat) = base + i" using assms by auto
  have cy: "(of_char ?y :: nat) = 49 + j" using assms by auto
  have mx: "?x \<in> set ''abcdefghABCDEFGH''" unfolding letter_codes cx using assms by auto
  have my: "?y \<in> set ''12345678''" unfolding digit_codes cy using assms by auto
  have ly: "ord (lower_char ?y) = 49 + int j"
    unfolding ord_lower_char cy using assms by (simp add: ord_def cy)
  have lx: "ord (lower_char ?x) = 97 + int i"
    unfolding ord_lower_char cx using assms by (auto simp add: ord_def cx)
  show ?thesis unfolding parse_two using mx my by (simp add: lx ly del: set_simps)
qed

text \<open>
  C7: \<open>parse_coordinate\<close> raises \<open>CoordinateParseError\<close> exactly on the strings that are
  not a move token (a letter \<open>a\<close> to \<open>h\<close> in either case followed by a digit \<open>1\<close> to
  \<open>8\<close>), and returns a coordinate on the board exactly on the move tokens: the \<open>i\<close>-th
  letter and the \<open>j\<close>-th digit, counted from 0, give \<open>(j, i)\<close>, in lower and in upper
  case. \<open>i1\<close>, \<open>a9\<close>, \<open>a\<close> and \<open>abc\<close> raise; \<open>H8\<close> and \<open>h8\<close> both give \<open>(7, 7)\<close>.
\<close>

theorem C7_parse_coordinate:
  "((\<exists>msg. parse_coordinate s = Inl (CoordinateParseError msg)) \<longleftrightarrow> \<not> is_move_token s)
   \<and> (is_move_token s \<longleftrightarrow> (\<exists>coord. parse_coordinate s = Inr coord \<and> on_board coord))
   \<and> (\<forall>i < 8. \<forall>j < 8.
         parse_coordinate [char_of (97 + i :: nat), char_of (49 + j :: nat)] = Inr (int j, int i)
       \<and> parse_coordinate [char_of (65 + i :: nat), char_of (49 + j :: nat)] = Inr (int j, int i))
   \<and> parse_coordinate ''i1'' = Inl (CoordinateParseError ''Col out of bounds'')
   \<and> parse_coordinate ''a9'' = Inl (CoordinateParseError ''Row out of bounds'')
   \<and> parse_coordinate ''a'' = Inl (CoordinateParseError ''Input must be length 2'')
   \<and> parse_coordinate ''abc'' = Inl (CoordinateParseError ''Input must be length 2'')
   \<and> parse_coordinate ''H8'' = Inr (7, 7)
   \<and> parse_coordinate ''h8'' = Inr (7, 7)"
proof -
  have raises: "(\<exists>msg. parse_coordinate s = Inl (CoordinateParseError msg)) \<longleftrightarrow> \<not> is_move_token s"
  proof (cases "length s = 2")
    case False
    then have "\<not> is_move_token s" by (auto simp: is_move_token_iff)
    with False show ?thesis by (simp add: parse_other_length)
  next
    case True
    then obtain x y where s: "s = [x, y]" by (auto simp: length_two)
    show ?thesis unfolding s is_move_token_iff parse_two by (simp del: set_simps)
  qed
  have parses: "is_move_token s \<longleftrightarrow> (\<exists>coord. parse_coordinate s = Inr coord \<and> on_board coord)"
  proof (cases "length s = 2")
    case False
    then have "\<not> is_move_token s" by (auto simp: is_move_token_iff)
    with False show ?thesis by (simp add: parse_other_length)
  next
    case True
    then obtain x y where s: "s = [x, y]" by (auto simp: length_two)
    show ?thesis
    proof (cases "x \<in> set ''abcdefghABCDEFGH'' \<and> y \<in> set ''12345678''")
      case False
      then show ?thesis unfolding s is_move_token_iff parse_two by (auto simp del: set_simps)
    next
      case True
      with row_in_range [of y] col_in_range [of x]
      have "on_board (ord (lower_char y) - 49, ord (lower_char x) - 97)"
        by (simp add: on_board_def SIZE_def del: set_simps)
      with True show ?thesis unfolding s is_move_token_iff parse_two by (simp del: set_simps)
    qed
  qed
  have table: "\<forall>i < 8. \<forall>j < 8.
         parse_coordinate [char_of (97 + i :: nat), char_of (49 + j :: nat)] = Inr (int j, int i)
       \<and> parse_coordinate [char_of (65 + i :: nat), char_of (49 + j :: nat)] = Inr (int j, int i)"
    using parse_letter_digit by blast
  have e1: "parse_coordinate ''i1'' = Inl (CoordinateParseError ''Col out of bounds'')" by code_simp
  have e2: "parse_coordinate ''a9'' = Inl (CoordinateParseError ''Row out of bounds'')" by code_simp
  have e3: "parse_coordinate ''a'' = Inl (CoordinateParseError ''Input must be length 2'')" by code_simp
  have e4: "parse_coordinate ''abc'' = Inl (CoordinateParseError ''Input must be length 2'')" by code_simp
  have e5: "parse_coordinate ''H8'' = Inr (7, 7)" by code_simp
  have e6: "parse_coordinate ''h8'' = Inr (7, 7)" by code_simp
  from raises parses table e1 e2 e3 e4 e5 e6 show ?thesis by (intro conjI)
qed

theorem C7_parse_coordinate_witness:
  "\<not> is_move_token ''h9'' \<and> parse_coordinate ''h9'' = Inl (CoordinateParseError ''Row out of bounds'')
   \<and> (3::nat) < 8 \<and> (5::nat) < 8 \<and> parse_coordinate ''D6'' = Inr (5, 3)"
proof -
  have a: "\<not> is_move_token ''h9''" by code_simp
  have b: "parse_coordinate ''h9'' = Inl (CoordinateParseError ''Row out of bounds'')" by code_simp
  from C7_parse_coordinate [of "''h9''"]
  have "\<forall>i < 8. \<forall>j < 8.
      parse_coordinate [char_of (65 + i :: nat), char_of (49 + j :: nat)] = Inr (int j, int i)"
    by blast
  then have "parse_coordinate [char_of (65 + 3 :: nat), char_of (49 + 5 :: nat)] = Inr (int 5, int 3)"
    by (meson numeral_less_iff semiring_norm)
  moreover have "char_of (68 :: nat) = CHR ''D''" "char_of (54 :: nat) = CHR ''6''"
    by (subst char_eq_code, simp)+
  ultimately have "parse_coordinate ''D6'' = Inr (5, 3)" by simp
  with a b show ?thesis by simp
qed

section \<open>Updating the board\<close>

lemma board_get_Inr:
  assumes "0 \<le> r" "0 \<le> c"
  shows "board_get b r c = Inr x \<longleftrightarrow>
    nat r < length b \<and> nat c < length (b ! nat r) \<and> b ! nat r ! nat c = x"
  using assms by (auto simp: board_get_def py_index_def split: sum.splits if_splits)

lemma board_get_Inl:
  assumes "0 \<le> r" "0 \<le> c"
  shows "board_get b r c = Inl e \<longleftrightarrow>
    e = IndexError \<and> \<not> (nat r < length b \<and> nat c < length (b ! nat r))"
  using assms by (auto simp: board_get_def py_index_def split: sum.splits if_splits)

lemma board_set_Inr:
  assumes "0 \<le> r" "0 \<le> c" "board_get b r c = Inr x"
  shows "board_set b r c v = Inr (b[nat r := (b ! nat r)[nat c := v] ])"
  using assms by (auto simp: board_get_def board_set_def py_index_def py_store_def split: sum.splits if_splits)

lemma at_update:
  assumes "0 \<le> fst p" "0 \<le> snd p" "at b p = Inr x" "0 \<le> fst q" "0 \<le> snd q"
  shows "at (b[nat (fst p) := (b ! nat (fst p))[nat (snd p) := v] ]) q = (if q = p then Inr v else at b q)"
proof -
  from assms have p: "nat (fst p) < length b" "nat (snd p) < length (b ! nat (fst p))"
    by (auto simp: at_def board_get_Inr)
  let ?b = "b[nat (fst p) := (b ! nat (fst p))[nat (snd p) := v] ]"
  show ?thesis
  proof (cases "at b q")
    case (Inl e)
    then have "\<not> (nat (fst q) < length b \<and> nat (snd q) < length (b ! nat (fst q)))" "e = IndexError"
      using assms by (auto simp: at_def board_get_Inl)
    then have "\<not> (nat (fst q) < length ?b \<and> nat (snd q) < length (?b ! nat (fst q)))"
      by (cases "nat (fst q) = nat (fst p)") (auto simp: nth_list_update)
    then have "at ?b q = Inl IndexError"
      using assms board_get_Inl[of "fst q" "snd q" ?b IndexError] by (simp add: at_def)
    moreover have "q \<noteq> p" using Inl assms by auto
    ultimately show ?thesis using Inl \<open>e = IndexError\<close> by simp
  next
    case (Inr y)
    then have q: "nat (fst q) < length b" "nat (snd q) < length (b ! nat (fst q))" "b ! nat (fst q) ! nat (snd q) = y"
      using assms by (auto simp: at_def board_get_Inr)
    have "at ?b q = Inr (if q = p then v else y)"
      unfolding at_def using assms(4,5)
    proof (subst board_get_Inr)
      show "nat (fst q) < length ?b \<and> nat (snd q) < length (?b ! nat (fst q)) \<and>
         ?b ! nat (fst q) ! nat (snd q) = (if q = p then v else y)"
        using p q assms(1,2,4,5)
        by (cases "nat (fst q) = nat (fst p)"; cases "nat (snd q) = nat (snd p)")
           (auto simp: nth_list_update prod_eq_iff)
    qed auto
    with Inr show ?thesis by simp
  qed
qed

section \<open>Flipping a line\<close>

lemma on_board_nonneg: "on_board p \<Longrightarrow> 0 \<le> fst p \<and> 0 \<le> snd p"
  by (simp add: on_board_def)

lemma ray_inj:
  assumes "d \<noteq> (0, 0)" "ray m d i = ray m d j"
  shows "i = j"
proof -
  from assms(1) have "fst d \<noteq> 0 \<or> snd d \<noteq> 0" by (cases d) auto
  moreover from assms(2) have "int i * fst d = int j * fst d" "int i * snd d = int j * snd d"
    by (auto simp: ray_def)
  ultimately show ?thesis by auto
qed

lemma opp_run_nonzero:
  assumes "opp_run b c m d k" "1 \<le> k"
  shows "d \<noteq> (0, 0)"
proof
  assume "d = (0, 0)"
  then have "ray m d (Suc 0) = ray m d (Suc k)" by (simp add: ray_def)
  moreover from assms have "at b (ray m d (Suc 0)) = Inr (Some (opposite c))"
    "at b (ray m d (Suc k)) = Inr (Some c)" by (auto simp: opp_run_def)
  ultimately show False by simp
qed

lemma map_ray_upt: "map (ray m d) [Suc 0 ..< Suc (Suc k)] = ray m d (Suc 0) # map (ray (ray m d (Suc 0)) d) [Suc 0 ..< Suc k]"
proof -
  have "[Suc 0 ..< Suc (Suc k)] = Suc 0 # map Suc [Suc 0 ..< Suc k]"
    by (metis map_Suc_upt upt_conv_Cons zero_less_Suc Suc_less_eq)
  then show ?thesis by (simp add: ray_Suc comp_def)
qed

lemma opp_run_tail:
  assumes run: "opp_run b c m d (Suc k)"
  defines "p \<equiv> ray m d (Suc 0)"
  shows "opp_run (b[nat (fst p) := (b ! nat (fst p))[nat (snd p) := Some c] ]) c p d k"
proof -
  have d: "d \<noteq> (0, 0)" using opp_run_nonzero[OF run] by simp
  from run have p: "on_board p" "at b p = Inr (Some (opposite c))"
    by (auto simp: opp_run_def p_def)
  let ?b = "b[nat (fst p) := (b ! nat (fst p))[nat (snd p) := Some c] ]"
  have same: "at ?b (ray p d i) = at b (ray m d (Suc i))" if "1 \<le> i" "on_board (ray m d (Suc i))" for i
  proof -
    have "ray m d (Suc i) \<noteq> ray m d (Suc 0)" using ray_inj[OF d] that(1) by fastforce
    then show ?thesis
      using at_update[of p b "Some (opposite c)" "ray m d (Suc i)" "Some c"] p on_board_nonneg[OF p(1)]
        on_board_nonneg[OF that(2)]
      by (simp add: p_def ray_Suc)
  qed
  show ?thesis
    unfolding opp_run_def
  proof (intro conjI ballI)
    fix i assume i: "i \<in> {1..k}"
    with run have ob: "on_board (ray m d (Suc i))" "at b (ray m d (Suc i)) = Inr (Some (opposite c))"
      by (auto simp: opp_run_def)
    show "on_board (ray p d i)" using ob by (simp add: p_def ray_Suc)
    show "at ?b (ray p d i) = Inr (Some (opposite c))" using same[of i] i ob by simp
  next
    from run have ob: "on_board (ray m d (Suc (Suc k)))" "at b (ray m d (Suc (Suc k))) = Inr (Some c)"
      by (auto simp: opp_run_def)
    show "on_board (ray p d (Suc k))" using ob by (simp add: p_def ray_Suc)
    show "at ?b (ray p d (Suc k)) = Inr (Some c)" using same[of "Suc k"] ob by simp
  qed
qed

lemma flip_line_logged_run:
  "opp_run b c m d k \<Longrightarrow>
   flip_line_logged b c d (fst m + fst d) (snd m + snd d) log
     = Some (Inr (set_cells b (map (ray m d) [Suc 0 ..< Suc k]) (Some c)),
             log @ map (ray m d) [Suc 0 ..< Suc (Suc k)])"
proof (induction k arbitrary: b m log)
  case 0
  then have "board_get b (fst m + fst d) (snd m + snd d) = Inr (Some c)"
    by (simp add: opp_run_def at_def ray_1)
  then show ?case
    by (subst flip_line_logged.simps) (simp add: ray_1)
next
  case (Suc k)
  define p where "p = ray m d (Suc 0)"
  from Suc.prems have p: "on_board p" "at b p = Inr (Some (opposite c))"
    by (auto simp: opp_run_def p_def)
  let ?b = "b[nat (fst p) := (b ! nat (fst p))[nat (snd p) := Some c] ]"
  have get: "board_get b (fst p) (snd p) = Inr (Some (opposite c))"
    using p(2) by (simp add: at_def)
  have set: "board_set b (fst p) (snd p) (Some c) = Inr ?b"
    using board_set_Inr[of "fst p" "snd p" b _ "Some c"] p on_board_nonneg[OF p(1)]
    by (simp add: at_def)
  have tail: "opp_run ?b c p d k" using opp_run_tail[OF Suc.prems] by (simp add: p_def)
  have rec: "flip_line_logged ?b c d (fst p + fst d) (snd p + snd d) (log @ [p])
     = Some (Inr (set_cells ?b (map (ray p d) [Suc 0 ..< Suc k]) (Some c)),
             (log @ [p]) @ map (ray p d) [Suc 0 ..< Suc (Suc k)])"
    by (rule Suc.IH[OF tail])
  have fp: "fst p = fst m + fst d" "snd p = snd m + snd d" by (simp_all add: p_def ray_1)
  have "flip_line_logged b c d (fst p) (snd p) log
      = flip_line_logged ?b c d (fst p + fst d) (snd p + snd d) (log @ [p])"
    by (subst flip_line_logged.simps) (simp add: get set)
  also note rec
  finally have res: "flip_line_logged b c d (fst p) (snd p) log
     = Some (Inr (set_cells ?b (map (ray p d) [Suc 0 ..< Suc k]) (Some c)),
             (log @ [p]) @ map (ray p d) [Suc 0 ..< Suc (Suc k)])" .
  have l1: "set_cells b (map (ray m d) [Suc 0 ..< Suc (Suc k)]) (Some c)
      = set_cells ?b (map (ray p d) [Suc 0 ..< Suc k]) (Some c)"
    by (simp only: map_ray_upt[of m d k] set_cells.simps p_def)
  have l2: "log @ map (ray m d) [Suc 0 ..< Suc (Suc (Suc k))]
      = (log @ [p]) @ map (ray p d) [Suc 0 ..< Suc (Suc k)]"
    by (simp only: map_ray_upt[of m d "Suc k"] p_def append_assoc append.simps)
  show ?case unfolding fp[symmetric] l1 l2 by (rule res)
qed

lemma flip_line_loop_run:
  "opp_run b c m d k \<Longrightarrow>
   flip_line_loop b c d (fst m + fst d) (snd m + snd d)
     = Some (Inr (set_cells b (map (ray m d) [Suc 0 ..< Suc k]) (Some c)))"
proof (induction k arbitrary: b m)
  case 0
  then have "board_get b (fst m + fst d) (snd m + snd d) = Inr (Some c)"
    by (simp add: opp_run_def at_def ray_1)
  then show ?case
    by (subst flip_line_loop.simps) simp
next
  case (Suc k)
  define p where "p = ray m d (Suc 0)"
  from Suc.prems have p: "on_board p" "at b p = Inr (Some (opposite c))"
    by (auto simp: opp_run_def p_def)
  let ?b = "b[nat (fst p) := (b ! nat (fst p))[nat (snd p) := Some c] ]"
  have get: "board_get b (fst p) (snd p) = Inr (Some (opposite c))"
    using p(2) by (simp add: at_def)
  have set: "board_set b (fst p) (snd p) (Some c) = Inr ?b"
    using board_set_Inr[of "fst p" "snd p" b _ "Some c"] p on_board_nonneg[OF p(1)]
    by (simp add: at_def)
  have tail: "opp_run ?b c p d k" using opp_run_tail[OF Suc.prems] by (simp add: p_def)
  have rec: "flip_line_loop ?b c d (fst p + fst d) (snd p + snd d)
     = Some (Inr (set_cells ?b (map (ray p d) [Suc 0 ..< Suc k]) (Some c)))"
    by (rule Suc.IH[OF tail])
  have fp: "fst p = fst m + fst d" "snd p = snd m + snd d" by (simp_all add: p_def ray_1)
  have "flip_line_loop b c d (fst p) (snd p)
      = flip_line_loop ?b c d (fst p + fst d) (snd p + snd d)"
    by (subst flip_line_loop.simps) (simp add: get set)
  also note rec
  finally have res: "flip_line_loop b c d (fst p) (snd p)
     = Some (Inr (set_cells ?b (map (ray p d) [Suc 0 ..< Suc k]) (Some c)))" .
  have l1: "set_cells b (map (ray m d) [Suc 0 ..< Suc (Suc k)]) (Some c)
      = set_cells ?b (map (ray p d) [Suc 0 ..< Suc k]) (Some c)"
    by (simp only: map_ray_upt[of m d k] set_cells.simps p_def)
  show ?case unfolding fp[symmetric] l1 by (rule res)
qed

lemma run_length_le_7:
  assumes "opp_run b c m d k" "1 \<le> k"
  shows "k \<le> 7"
proof -
  have d: "d \<noteq> (0, 0)" using opp_run_nonzero[OF assms] .
  from assms have ob: "on_board (ray m d (Suc 0))" "on_board (ray m d (Suc k))"
    by (auto simp: opp_run_def)
  have bound: "int k \<le> 7" if "e \<noteq> 0" "0 \<le> x + e" "x + e < 8" "0 \<le> x + int (Suc k) * e" "x + int (Suc k) * e < 8" for x e :: int
  proof -
    have "\<bar>int k * e\<bar> \<le> 7" using that by (simp add: algebra_simps)
    moreover have "int k * 1 \<le> int k * \<bar>e\<bar>" using that(1) by (intro mult_left_mono) auto
    ultimately show ?thesis by (simp add: abs_mult)
  qed
  from d have "fst d \<noteq> 0 \<or> snd d \<noteq> 0" by (cases d) auto
  then have "int k \<le> 7"
  proof
    assume "fst d \<noteq> 0"
    from bound[OF this, of "fst m"] ob show ?thesis by (simp add: on_board_def ray_def SIZE_def)
  next
    assume "snd d \<noteq> 0"
    from bound[OF this, of "snd m"] ob show ?thesis by (simp add: on_board_def ray_def SIZE_def)
  qed
  then show ?thesis by simp
qed

lemma logged_to_loop:
  assumes "flip_line_logged b c d r cl log = Some res"
  shows "flip_line_loop b c d r cl = Some (fst res)"
proof (rule flip_line_logged.raw_induct
    [where P = "\<lambda>b c d r cl log res. flip_line_loop b c d r cl = Some (fst res)", OF _ assms])
  fix f b c d r cl log res
  assume IH: "\<And>b c d r cl log res. f b c d r cl log = Some res \<Longrightarrow>
               flip_line_loop b c d r cl = Some (fst res)"
    and body: "(case board_get b r cl of
        Inl e \<Rightarrow> Some (Inl e, log @ [(r, cl)])
      | Inr x \<Rightarrow>
          if x \<noteq> Some c
          then (case board_set b r cl (Some c) of
                  Inl e \<Rightarrow> Some (Inl e, log @ [(r, cl)])
                | Inr board' \<Rightarrow> f board' c d (r + fst d) (cl + snd d) (log @ [(r, cl)]))
          else Some (Inr b, log @ [(r, cl)])) = Some res"
  show "flip_line_loop b c d r cl = Some (fst res)"
    using body IH
    by (subst flip_line_loop.simps) (auto split: sum.splits if_splits)
qed

lemma loop_to_logged:
  assumes "flip_line_loop b c d r cl = Some x"
  shows "\<exists>lg. flip_line_logged b c d r cl log = Some (x, lg)"
proof -
  have "\<forall>log. \<exists>lg. flip_line_logged b c d r cl log = Some (x, lg)"
  proof (rule flip_line_loop.raw_induct
      [where P = "\<lambda>b c d r cl x. \<forall>log. \<exists>lg. flip_line_logged b c d r cl log = Some (x, lg)", OF _ assms])
    fix f b c d r cl x
    assume IH: "\<And>b c d r cl x. f b c d r cl = Some x \<Longrightarrow>
                 \<forall>log. \<exists>lg. flip_line_logged b c d r cl log = Some (x, lg)"
      and body: "(case board_get b r cl of
          Inl e \<Rightarrow> Some (Inl e)
        | Inr y \<Rightarrow>
            if y \<noteq> Some c
            then (case board_set b r cl (Some c) of
                    Inl e \<Rightarrow> Some (Inl e)
                  | Inr board' \<Rightarrow> f board' c d (r + fst d) (cl + snd d))
            else Some (Inr b)) = Some x"
    show "\<forall>log. \<exists>lg. flip_line_logged b c d r cl log = Some (x, lg)"
    proof
      fix log
      show "\<exists>lg. flip_line_logged b c d r cl log = Some (x, lg)"
        using body IH
        by (subst flip_line_logged.simps) (auto split: sum.splits if_splits)
    qed
  qed
  then show ?thesis by blast
qed

lemma flip_line_logged_board:
  "map_option fst (flip_line_logged b c d r cl log) = flip_line_loop b c d r cl"
proof (cases "flip_line_logged b c d r cl log")
  case None
  then show ?thesis using loop_to_logged[of b c d r cl _ log] by (cases "flip_line_loop b c d r cl") auto
next
  case (Some res)
  then show ?thesis using logged_to_loop by simp
qed

lemma set_cells_at:
  assumes "\<forall>p \<in> set ps. 0 \<le> fst p \<and> 0 \<le> snd p \<and> (\<exists>x. at b p = Inr x)" "0 \<le> fst q" "0 \<le> snd q"
  shows "at (set_cells b ps v) q = (if q \<in> set ps then Inr v else at b q)"
  using assms(1)
proof (induction ps arbitrary: b)
  case Nil
  then show ?case by simp
next
  case (Cons p ps)
  let ?b = "b[nat (fst p) := (b ! nat (fst p))[nat (snd p) := v] ]"
  from Cons.prems obtain x where p: "0 \<le> fst p" "0 \<le> snd p" "at b p = Inr x" by auto
  have upd: "at ?b r = (if r = p then Inr v else at b r)" if "0 \<le> fst r" "0 \<le> snd r" for r
    using at_update[OF p that] .
  have "\<forall>p' \<in> set ps. 0 \<le> fst p' \<and> 0 \<le> snd p' \<and> (\<exists>x. at ?b p' = Inr x)"
    using Cons.prems upd by auto
  from Cons.IH[OF this] have "at (set_cells ?b ps v) q = (if q \<in> set ps then Inr v else at ?b q)" .
  then show ?case using upd[OF assms(2,3)] by auto
qed

lemma wf_board_update:
  "wf_board b \<Longrightarrow> wf_board (b[i := (b ! i)[j := v] ])"
  by (cases "i < length b") (auto simp: wf_board_def list_all_length nth_list_update)

lemma wf_board_set_cells: "wf_board b \<Longrightarrow> wf_board (set_cells b ps v)"
  by (induction ps arbitrary: b) (simp_all add: wf_board_update)

text \<open>
  C9: whenever \<open>is_flippable_line\<close> returns true, for any board, colour, coordinate and
  direction, the \<open>while\<close> loop of \<open>flip_line\<close> returns normally after \<open>k\<close> iterations with
  \<open>1 \<le> k \<le> 7\<close>; the coordinates at which it evaluates \<open>board[row][col]\<close> are the first
  \<open>k + 1\<close> cells of the ray, all within \<open>[0,7] \<times> [0,7]\<close>, so no index is negative or too
  large; the first \<open>k\<close> of them hold the opponent's colour and the last one, where the loop
  stops, is the first cell of the mover's colour.
\<close>

theorem C9_flip_line_bounded:
  assumes "is_flippable_line board move color direction False = Some (Inr True)"
  shows "\<exists>k board' log.
      flip_line board move color direction = Some (Inr board')
    \<and> flip_line_logged board color direction
          (fst move + fst direction) (snd move + snd direction) [] = Some (Inr board', log)
    \<and> log = map (ray move direction) [1 ..< k + 2]
    \<and> 1 \<le> k \<and> k \<le> 7
    \<and> (\<forall>p \<in> set log. on_board p)
    \<and> (\<forall>i \<in> {1 .. k}. at board (ray move direction i) = Inr (Some (opposite color)))
    \<and> at board (ray move direction (k + 1)) = Inr (Some color)"
proof -
  from ifl_True_run[OF assms] obtain k where k: "1 \<le> k" "opp_run board color move direction k"
    by auto
  let ?b = "set_cells board (map (ray move direction) [Suc 0 ..< Suc k]) (Some color)"
  let ?log = "map (ray move direction) [1 ..< k + 2]"
  have a: "flip_line board move color direction = Some (Inr ?b)"
    unfolding flip_line_def by (rule flip_line_loop_run[OF k(2)])
  have b: "flip_line_logged board color direction
          (fst move + fst direction) (snd move + snd direction) [] = Some (Inr ?b, ?log)"
    using flip_line_logged_run[OF k(2), of "[]"] by simp
  have c: "\<forall>p \<in> set ?log. on_board p"
  proof
    fix p assume "p \<in> set ?log"
    then obtain i where i: "p = ray move direction i" "1 \<le> i" "i \<le> Suc k" by auto
    show "on_board p"
    proof (cases "i = Suc k")
      case True
      with k(2) i show ?thesis by (simp add: opp_run_def)
    next
      case False
      with i have "i \<in> {1 .. k}" by auto
      with k(2) i show ?thesis by (simp add: opp_run_def)
    qed
  qed
  have d: "\<forall>i \<in> {1 .. k}. at board (ray move direction i) = Inr (Some (opposite color))"
    using k(2) by (simp add: opp_run_def)
  have e: "at board (ray move direction (k + 1)) = Inr (Some color)"
    using k(2) by (simp add: opp_run_def)
  from a b c d e k(1) run_length_le_7[OF k(2,1)] show ?thesis by blast
qed

theorem C9_flip_line_bounded_witness:
  "is_flippable_line initial_board (2, 4) BLACK (1, 0) False = Some (Inr True)
   \<and> (\<exists>k board' log.
      flip_line initial_board (2, 4) BLACK (1, 0) = Some (Inr board')
    \<and> flip_line_logged initial_board BLACK (1, 0) 3 4 [] = Some (Inr board', log)
    \<and> log = map (ray (2, 4) (1, 0)) [1 ..< k + 2]
    \<and> 1 \<le> k \<and> k \<le> 7
    \<and> (\<forall>p \<in> set log. on_board p)
    \<and> (\<forall>i \<in> {1 .. k}. at initial_board (ray (2, 4) (1, 0) i) = Inr (Some (opposite BLACK)))
    \<and> at initial_board (ray (2, 4) (1, 0) (k + 1)) = Inr (Some BLACK))
   \<and> map_option snd (flip_line_logged initial_board BLACK (1, 0) 3 4 []) = Some [(3, 4), (4, 4)]"
proof -
  have a: "is_flippable_line initial_board (2, 4) BLACK (1, 0) False = Some (Inr True)"
    by code_simp
  have b: "map_option snd (flip_line_logged initial_board BLACK (1, 0) 3 4 []) = Some [(3, 4), (4, 4)]"
    by code_simp
  from C9_flip_line_bounded [OF a] a b show ?thesis by simp
qed

section \<open>Applying a move\<close>

lemma opp_run_cong:
  assumes "\<And>i. 1 \<le> i \<Longrightarrow> on_board (ray m d i) \<Longrightarrow> at b1 (ray m d i) = at b (ray m d i)"
  shows "opp_run b1 c m d k = opp_run b c m d k"
  unfolding opp_run_def using assms by (metis atLeastAtMost_iff le_add1 plus_1_eq_Suc)

lemma line_cells_cong:
  assumes "\<And>i. 1 \<le> i \<Longrightarrow> on_board (ray m d i) \<Longrightarrow> at b1 (ray m d i) = at b (ray m d i)"
  shows "line_cells b1 c m d = line_cells b c m d"
  unfolding line_cells_def using opp_run_cong[OF assms] by simp

lemma opp_run_unique:
  assumes "opp_run b c m d k" "opp_run b c m d k'"
  shows "k = k'"
proof -
  have "\<not> k < k'" if "opp_run b c m d k" "opp_run b c m d k'" for k k'
  proof
    assume "k < k'"
    then have "Suc k \<in> {1 .. k'}" by auto
    with that(2) have "at b (ray m d (Suc k)) = Inr (Some (opposite c))" by (simp add: opp_run_def)
    moreover from that(1) have "at b (ray m d (Suc k)) = Inr (Some c)" by (simp add: opp_run_def)
    ultimately show False by simp
  qed
  from this[OF assms] this[OF assms(2,1)] show ?thesis by simp
qed

lemma line_cells_run:
  assumes "opp_run b c m d k" "1 \<le> k"
  shows "line_cells b c m d = set (map (ray m d) [Suc 0 ..< Suc k])"
proof -
  have "line_cells b c m d = {ray m d i | i. 1 \<le> i \<and> i \<le> k}"
    unfolding line_cells_def using assms opp_run_unique[OF assms(1)] by blast
  then show ?thesis by auto
qed

lemma line_cells_empty:
  "\<not> spec_flippable_line b c m d \<Longrightarrow> line_cells b c m d = {}"
  by (auto simp: line_cells_def spec_flippable_line_def)

lemma sign_mult_eq:
  assumes "int i * e = int j * e'" "1 \<le> i" "1 \<le> j" "e \<in> {-1, 0, 1}" "e' \<in> {-1, 0, 1}"
  shows "e = e'"
proof -
  have i: "0 < int i" and j: "0 < int j" using assms by auto
  from assms(4) consider "e = 0" | "e = 1" | "e = -1" by auto
  then show ?thesis
  proof cases
    case 1
    with assms(1) j show ?thesis by simp
  next
    case 2
    with assms(1) i have "0 < int j * e'" by simp
    with j have "0 < e'" by (simp add: zero_less_mult_iff)
    with assms(5) 2 show ?thesis by auto
  next
    case 3
    with assms(1) i have "int j * e' < 0" by simp
    with j have "e' < 0" by (simp add: mult_less_0_iff)
    with assms(5) 3 show ?thesis by auto
  qed
qed

lemma directions_components:
  "d \<in> set directions \<Longrightarrow> fst d \<in> {-1, 0, 1} \<and> snd d \<in> {-1, 0, 1}"
  by (erule directions_cases) simp_all

lemma rays_disjoint:
  assumes "d \<in> set directions" "d' \<in> set directions" "1 \<le> i" "1 \<le> j"
    and "ray m d i = ray m d' j"
  shows "d = d'"
proof -
  from assms(5) have "int i * fst d = int j * fst d'" "int i * snd d = int j * snd d'"
    by (auto simp: ray_def)
  with sign_mult_eq[OF _ assms(3,4)] directions_components[OF assms(1)] directions_components[OF assms(2)]
  have "fst d = fst d'" "snd d = snd d'" by blast+
  then show ?thesis by (simp add: prod_eq_iff)
qed

lemma flip_line_effect:
  assumes "opp_run b c m d k" "1 \<le> k"
  defines "b1 \<equiv> set_cells b (map (ray m d) [Suc 0 ..< Suc k]) (Some c)"
  shows "flip_line b m c d = Some (Inr b1)"
    and "0 \<le> fst q \<Longrightarrow> 0 \<le> snd q \<Longrightarrow>
         at b1 q = (if q \<in> line_cells b c m d then Inr (Some c) else at b q)"
proof -
  show "flip_line b m c d = Some (Inr b1)"
    unfolding flip_line_def b1_def by (rule flip_line_loop_run[OF assms(1)])
  have cells: "\<forall>p \<in> set (map (ray m d) [Suc 0 ..< Suc k]). 0 \<le> fst p \<and> 0 \<le> snd p \<and> (\<exists>x. at b p = Inr x)"
  proof
    fix p assume "p \<in> set (map (ray m d) [Suc 0 ..< Suc k])"
    then obtain i where "p = ray m d i" "i \<in> {1 .. k}" by auto
    with assms(1) have "on_board p" "at b p = Inr (Some (opposite c))" by (auto simp: opp_run_def)
    then show "0 \<le> fst p \<and> 0 \<le> snd p \<and> (\<exists>x. at b p = Inr x)" using on_board_nonneg by blast
  qed
  show "at b1 q = (if q \<in> line_cells b c m d then Inr (Some c) else at b q)"
    if "0 \<le> fst q" "0 \<le> snd q"
    unfolding b1_def line_cells_run[OF assms(1,2)] using set_cells_at[OF cells that] .
qed

lemma do_flip_loop_effect:
  assumes "wf_board b" "distinct ds" "set ds \<subseteq> set directions"
  shows "\<exists>b'. do_flip_loop b c m ds = Some (Inr b') \<and> wf_board b'
    \<and> (\<forall>q. 0 \<le> fst q \<and> 0 \<le> snd q \<longrightarrow>
          at b' q = (if q \<in> (\<Union>d \<in> set ds. line_cells b c m d) then Inr (Some c) else at b q))"
  using assms
proof (induction ds arbitrary: b)
  case Nil
  then show ?case by simp
next
  case (Cons d ds)
  have d: "d \<in> set directions" "d \<noteq> (0, 0)" using Cons.prems(3) directions_nonzero by auto
  have ifl: "is_flippable_line b m c d False = Some (Inr (spec_flippable_line b c m d))"
    by (rule ifl_eq_spec[OF Cons.prems(1) d(2)])
  show ?case
  proof (cases "spec_flippable_line b c m d")
    case False
    from Cons.IH[of b] Cons.prems obtain b' where b': "do_flip_loop b c m ds = Some (Inr b')" "wf_board b'"
      "\<forall>q. 0 \<le> fst q \<and> 0 \<le> snd q \<longrightarrow>
          at b' q = (if q \<in> (\<Union>d \<in> set ds. line_cells b c m d) then Inr (Some c) else at b q)"
      by auto
    have "do_flip_loop b c m (d # ds) = Some (Inr b')" using ifl False b'(1) by simp
    with b'(2,3) line_cells_empty[OF False] show ?thesis by auto
  next
    case True
    then obtain k where k: "1 \<le> k" "opp_run b c m d k" by (auto simp: spec_flippable_line_def)
    define b1 where "b1 = set_cells b (map (ray m d) [Suc 0 ..< Suc k]) (Some c)"
    have fl: "flip_line b m c d = Some (Inr b1)"
      unfolding b1_def by (rule flip_line_effect(1)[OF k(2,1)])
    have at1: "at b1 q = (if q \<in> line_cells b c m d then Inr (Some c) else at b q)"
      if "0 \<le> fst q" "0 \<le> snd q" for q
      unfolding b1_def by (rule flip_line_effect(2)[OF k(2,1) that])
    have wf1: "wf_board b1" unfolding b1_def by (rule wf_board_set_cells[OF Cons.prems(1)])
    have same: "line_cells b1 c m d' = line_cells b c m d'" if "d' \<in> set ds" for d'
    proof (rule line_cells_cong)
      fix i assume i: "1 \<le> i" "on_board (ray m d' i)"
      have d': "d' \<in> set directions" "d' \<noteq> d" using that Cons.prems(2,3) by auto
      have "ray m d' i \<notin> line_cells b c m d"
      proof
        assume "ray m d' i \<in> line_cells b c m d"
        then obtain j where "1 \<le> j" "ray m d' i = ray m d j" by (auto simp: line_cells_def)
        with rays_disjoint[OF d'(1) d(1) i(1) this(1)] d'(2) show False by simp
      qed
      then show "at b1 (ray m d' i) = at b (ray m d' i)"
        using at1[of "ray m d' i"] on_board_nonneg[OF i(2)] by simp
    qed
    from Cons.IH[of b1] wf1 Cons.prems obtain b' where b': "do_flip_loop b1 c m ds = Some (Inr b')" "wf_board b'"
      "\<forall>q. 0 \<le> fst q \<and> 0 \<le> snd q \<longrightarrow>
          at b' q = (if q \<in> (\<Union>d \<in> set ds. line_cells b1 c m d) then Inr (Some c) else at b1 q)"
      by auto
    have eq: "(\<Union>d \<in> set ds. line_cells b1 c m d) = (\<Union>d \<in> set ds. line_cells b c m d)"
      using same by simp
    have "do_flip_loop b c m (d # ds) = Some (Inr b')" using ifl True fl b'(1) by simp
    moreover have "\<forall>q. 0 \<le> fst q \<and> 0 \<le> snd q \<longrightarrow>
          at b' q = (if q \<in> (\<Union>d \<in> set (d # ds). line_cells b c m d) then Inr (Some c) else at b q)"
      using b'(3) at1 unfolding eq by auto
    ultimately show ?thesis using b'(2) by blast
  qed
qed

lemma distinct_directions: "distinct directions"
  by (simp add: directions_def)

lemma valid_move_True:
  assumes "wf_board b" "valid_move b c m = Some (Inr True)"
  shows "on_board m" "at b m = Inr None"
  using assms valid_move_eq_spec[OF assms(1), of c m] by (auto simp: spec_is_legal_move_def)

lemma apply_move_effect:
  assumes "wf_board b" "on_board m" "at b m = Inr x"
  shows "\<exists>b'. apply_move b c m = Some (Inr b') \<and> wf_board b'
    \<and> (\<forall>q. on_board q \<longrightarrow>
          at b' q = (if q = m \<or> q \<in> flipped_cells b c m then Inr (Some c) else at b q))"
proof -
  define b1 where "b1 = b[nat (fst m) := (b ! nat (fst m))[nat (snd m) := Some c] ]"
  have nn: "0 \<le> fst m" "0 \<le> snd m" using on_board_nonneg [OF assms(2)] by simp_all
  have set: "board_set b (fst m) (snd m) (Some c) = Inr b1"
    unfolding b1_def using board_set_Inr [OF nn, of b x "Some c"] assms(3) by (simp add: at_def)
  have wf1: "wf_board b1" unfolding b1_def by (rule wf_board_update [OF assms(1)])
  have at1: "at b1 q = (if q = m then Inr (Some c) else at b q)" if "0 \<le> fst q" "0 \<le> snd q" for q
    unfolding b1_def by (rule at_update [OF nn assms(3) that])
  have same: "line_cells b1 c m d = line_cells b c m d" if "d \<in> set directions" for d
  proof (rule line_cells_cong)
    fix i :: nat assume i: "1 \<le> i" "on_board (ray m d i)"
    have "ray m d i \<noteq> ray m d 0" using ray_inj [OF directions_nonzero [OF that], of m i 0] i(1) by auto
    then show "at b1 (ray m d i) = at b (ray m d i)"
      using at1 [of "ray m d i"] on_board_nonneg [OF i(2)] by simp
  qed
  from do_flip_loop_effect [OF wf1 distinct_directions subset_refl, of c m]
  obtain b' where b': "do_flip_loop b1 c m directions = Some (Inr b')" "wf_board b'"
    "\<forall>q. 0 \<le> fst q \<and> 0 \<le> snd q \<longrightarrow>
          at b' q = (if q \<in> (\<Union>d \<in> set directions. line_cells b1 c m d)
                     then Inr (Some c) else at b1 q)"
    by blast
  have eq: "(\<Union>d \<in> set directions. line_cells b1 c m d) = flipped_cells b c m"
    unfolding flipped_cells_def using same by simp
  have "apply_move b c m = Some (Inr b')"
    by (simp add: apply_move_def set do_flip_def b'(1))
  moreover have "\<forall>q. on_board q \<longrightarrow>
          at b' q = (if q = m \<or> q \<in> flipped_cells b c m then Inr (Some c) else at b q)"
    using b'(3) at1 on_board_nonneg unfolding eq by auto
  ultimately show ?thesis using b'(2) by blast
qed

text \<open>
  C3: on an 8 by 8 board, when \<open>valid_move\<close> holds, the placement followed by \<open>do_flip\<close>
  returns normally with a board on which the cell at the coordinate holds the mover's
  colour, every opponent cell of every flippable line of the eight directions (the cells
  before the mover's bookend) holds the mover's colour, and every other cell is as before.
\<close>

theorem C3_apply_move:
  assumes "wf_board board" "valid_move board color coord = Some (Inr True)"
  shows "\<exists>board'. apply_move board color coord = Some (Inr board') \<and> wf_board board'
    \<and> (\<forall>p. on_board p \<longrightarrow>
          at board' p = (if p = coord \<or> p \<in> flipped_cells board color coord
                         then Inr (Some color) else at board p))"
  using apply_move_effect [OF assms(1) valid_move_True [OF assms] ] .

theorem C3_apply_move_witness:
  "wf_board initial_board
   \<and> valid_move initial_board BLACK (2, 4) = Some (Inr True)
   \<and> (\<exists>board'. apply_move initial_board BLACK (2, 4) = Some (Inr board') \<and> wf_board board'
    \<and> (\<forall>p. on_board p \<longrightarrow>
          at board' p = (if p = (2, 4) \<or> p \<in> flipped_cells initial_board BLACK (2, 4)
                         then Inr (Some BLACK) else at initial_board p)))
   \<and> apply_move initial_board BLACK (2, 4) = Some (Inr
     [ [None, None, None, None, None, None, None, None],
       [None, None, None, None, None, None, None, None],
       [None, None, None, None, Some BLACK, None, None, None],
       [None, None, None, Some BLACK, Some BLACK, None, None, None],
       [None, None, None, Some WHITE, Some BLACK, None, None, None],
       [None, None, None, None, None, None, None, None],
       [None, None, None, None, None, None, None, None],
       [None, None, None, None, None, None, None, None] ])"
proof -
  have a: "valid_move initial_board BLACK (2, 4) = Some (Inr True)" by code_simp
  have b: "apply_move initial_board BLACK (2, 4) = Some (Inr
     [ [None, None, None, None, None, None, None, None],
       [None, None, None, None, None, None, None, None],
       [None, None, None, None, Some BLACK, None, None, None],
       [None, None, None, Some BLACK, Some BLACK, None, None, None],
       [None, None, None, Some WHITE, Some BLACK, None, None, None],
       [None, None, None, None, None, None, None, None],
       [None, None, None, None, None, None, None, None],
       [None, None, None, None, None, None, None, None] ])" by code_simp
  from C3_apply_move [OF wf_initial_board a] a b wf_initial_board show ?thesis by blast
qed

section \<open>Counting discs\<close>

lemma count_row_eq:
  "count_row row (bc, wc) =
     (bc + int (length (filter (\<lambda>c. c = Some BLACK) row)),
      wc + int (length (filter (\<lambda>c. c = Some WHITE) row)))"
  by (induction row arbitrary: bc wc) auto

lemma count_tokens_eq:
  "count_tokens board (bc, wc) =
     (bc + int (length (filter (\<lambda>c. c = Some BLACK) (concat board))),
      wc + int (length (filter (\<lambda>c. c = Some WHITE) (concat board))))"
  by (induction board arbitrary: bc wc) (auto simp: count_row_eq)

lemma count_tokens_counts:
  "count_tokens board (0, 0) = (int (black_count board), int (white_count board))"
  by (simp add: count_tokens_eq black_count_def white_count_def)

lemma filter_colours:
  "length (filter (\<lambda>c. c \<noteq> None) xs)
     = length (filter (\<lambda>c. c = Some BLACK) xs) + length (filter (\<lambda>c. c = Some WHITE) xs)"
proof (induction xs)
  case Nil
  then show ?case by simp
next
  case (Cons x xs)
  then show ?case
  proof (cases x)
    case None
    with Cons show ?thesis by simp
  next
    case (Some col)
    with Cons show ?thesis by (cases col) simp_all
  qed
qed

lemma occupied_counts: "occupied board = black_count board + white_count board"
  unfolding occupied_def black_count_def white_count_def by (rule filter_colours)

lemma occupied_card_nat:
  "occupied b = card {(i, j). i < length b \<and> j < length (b ! i) \<and> b ! i ! j \<noteq> None}"
proof (induction b rule: rev_induct)
  case Nil
  then show ?case by (simp add: occupied_def)
next
  case (snoc row b)
  let ?old = "{(i, j). i < length b \<and> j < length (b ! i) \<and> b ! i ! j \<noteq> None}"
  let ?new = "Pair (length b) ` {j. j < length row \<and> row ! j \<noteq> None}"
  have split: "{(i, j). i < length (b @ [row]) \<and> j < length ((b @ [row]) ! i) \<and> (b @ [row]) ! i ! j \<noteq> None}
      = ?old \<union> ?new"
    by (auto simp: nth_append less_Suc_eq)
  have fin: "finite ?old"
  proof (rule finite_subset)
    show "?old \<subseteq> (\<Union>i \<in> {..< length b}. Pair i ` {..< length (b ! i)})" by auto
    show "finite (\<Union>i \<in> {..< length b}. Pair i ` {..< length (b ! i)})" by simp
  qed
  have disj: "?old \<inter> ?new = {}" by auto
  have "card ?new = card {j. j < length row \<and> row ! j \<noteq> None}"
    by (rule card_image) (simp add: inj_on_def)
  also have "\<dots> = length (filter (\<lambda>c. c \<noteq> None) row)"
    by (simp add: length_filter_conv_card)
  finally have new: "card ?new = length (filter (\<lambda>c. c \<noteq> None) row)" .
  have "occupied (b @ [row]) = occupied b + length (filter (\<lambda>c. c \<noteq> None) row)"
    by (simp add: occupied_def)
  also have "\<dots> = card ?old + card ?new" using snoc.IH new by simp
  also have "\<dots> = card (?old \<union> ?new)"
    using fin disj by (simp add: card_Un_disjoint)
  finally show ?case unfolding split .
qed

lemma finite_on_board: "finite {p. on_board p}"
proof (rule finite_subset)
  show "{p. on_board p} \<subseteq> {0 .. 7} \<times> {0 .. 7}" by (auto simp: on_board_def SIZE_def)
  show "finite ({0 .. 7 :: int} \<times> {0 .. 7 :: int})" by simp
qed

lemma card_on_board: "card {p. on_board p} = 64"
proof -
  have "{p. on_board p} = {0 .. 7} \<times> {0 .. 7}" by (auto simp: on_board_def SIZE_def)
  then show ?thesis by simp
qed

lemma finite_occupied_cells: "finite (occupied_cells b)"
  using finite_on_board by (rule rev_finite_subset) (auto simp: occupied_cells_def)

lemma occupied_card:
  assumes "wf_board b"
  shows "occupied b = card (occupied_cells b)"
proof -
  let ?S = "{(i, j). i < length b \<and> j < length (b ! i) \<and> b ! i ! j \<noteq> None}"
  let ?f = "\<lambda>(i :: nat, j :: nat). (int i, int j)"
  have rows: "length b = 8" "\<And>i. i < 8 \<Longrightarrow> length (b ! i) = 8"
    using assms by (simp_all add: wf_board_def list_all_length)
  have "occupied_cells b = ?f ` ?S"
  proof (intro set_eqI iffI)
    fix p assume "p \<in> occupied_cells b"
    then have p: "on_board p" "at b p \<noteq> Inr None" by (simp_all add: occupied_cells_def)
    then have "b ! nat (fst p) ! nat (snd p) \<noteq> None" using at_wf[OF assms p(1)] by simp
    moreover have "nat (fst p) < 8" "nat (snd p) < 8" "0 \<le> fst p" "0 \<le> snd p"
      using p(1) by (auto simp add: on_board_def SIZE_def)
    ultimately have "(nat (fst p), nat (snd p)) \<in> ?S" using rows by simp
    moreover have "?f (nat (fst p), nat (snd p)) = p" using \<open>0 \<le> fst p\<close> \<open>0 \<le> snd p\<close> by simp
    ultimately show "p \<in> ?f ` ?S" by (metis (no_types, lifting) image_eqI)
  next
    fix p assume "p \<in> ?f ` ?S"
    then obtain i j where ij: "p = (int i, int j)" "i < length b" "j < length (b ! i)" "b ! i ! j \<noteq> None"
      by auto
    then have ob: "on_board p" using rows by (simp add: on_board_def SIZE_def)
    from at_wf[OF assms ob] ij show "p \<in> occupied_cells b" using ob by (simp add: occupied_cells_def)
  qed
  moreover have "inj_on ?f ?S" by (auto simp: inj_on_def)
  ultimately show ?thesis using occupied_card_nat[of b] by (simp add: card_image)
qed

lemma occupied_le_64: "wf_board b \<Longrightarrow> occupied b \<le> 64"
proof -
  assume "wf_board b"
  then have "occupied b = card (occupied_cells b)" by (rule occupied_card)
  also have "\<dots> \<le> card {p. on_board p}"
    by (rule card_mono[OF finite_on_board]) (auto simp: occupied_cells_def)
  finally show ?thesis by (simp add: card_on_board)
qed

section \<open>The game loop\<close>

lemma iterate_loop_reaches:
  "reaches inp n g \<Longrightarrow> iterate_loop k g n = Some (g', n') \<Longrightarrow> reaches inp n' g'"
proof (induction k arbitrary: g n)
  case 0
  then show ?case by simp
next
  case (Suc k)
  from Suc.prems(2) show ?case
    by (auto split: option.splits outcome.splits
        intro: Suc.IH reaches.skipped[OF Suc.prems(1)] reaches.parse_rejected[OF Suc.prems(1)]
          reaches.move_rejected[OF Suc.prems(1)] reaches.move_applied[OF Suc.prems(1)])
qed

lemma reaches_game_loop: "reaches inp n g \<Longrightarrow> game_loop g = play_game inp"
proof (induction rule: reaches.induct)
  case (start board)
  show ?case unfolding play_game_def start by simp
next
  case (skipped n g g')
  then show ?case by (subst (asm) game_loop.simps) simp
next
  case (parse_rejected n g g')
  then show ?case by (subst (asm) game_loop.simps) simp
next
  case (move_rejected n g g')
  then show ?case by (subst (asm) game_loop.simps) simp
next
  case (move_applied n g g')
  then show ?case by (subst (asm) game_loop.simps) simp
qed

lemma set_all_coordinates: "set all_coordinates = {p. on_board p}"
proof -
  have "set all_coordinates = {0 .. 7} \<times> {0 .. 7}"
    by (auto simp: all_coordinates_def SIZE_def)
  also have "\<dots> = {p. on_board p}" by (auto simp: on_board_def SIZE_def)
  finally show ?thesis .
qed

lemma no_valid_moves_loop_spec:
  assumes "wf_board b"
  shows "no_valid_moves_loop b c ms = Some (Inr (\<forall>m \<in> set ms. \<not> spec_is_legal_move b c m))"
proof (induction ms)
  case Nil
  then show ?case by simp
next
  case (Cons m ms)
  then show ?case using valid_move_eq_spec[OF assms, of c m]
    by (cases "spec_is_legal_move b c m") auto
qed

lemma no_valid_moves_spec:
  assumes "wf_board b"
  shows "no_valid_moves b c = Some (Inr (\<forall>m. \<not> spec_is_legal_move b c m))"
proof -
  have "(\<forall>m \<in> set all_coordinates. \<not> spec_is_legal_move b c m) \<longleftrightarrow> (\<forall>m. \<not> spec_is_legal_move b c m)"
    by (auto simp: set_all_coordinates spec_is_legal_move_def)
  then show ?thesis
    unfolding no_valid_moves_def no_valid_moves_loop_spec[OF assms] by simp
qed

lemma handlers_cases:
  "handlers e g = oc \<Longrightarrow>
     (\<exists>msg. e = CoordinateParseError msg \<and> oc = ParseRejected (print [] (print (''Invalid move: '' @ msg) g)))
   \<or> (e = EOFError \<and> oc = InputClosed (print [] g))
   \<or> (e = KeyboardInterrupt \<and> oc = Interrupted (print [] g))
   \<or> ((e = IndexError \<or> e = StopIteration) \<and> oc = Uncaught e)"
  by (cases e) (auto simp: handlers_def)

lemma print_fields [simp]:
  "g_board (print s g) = g_board g" "g_turn (print s g) = g_turn g"
  "g_skip (print s g) = g_skip g" "g_input (print s g) = g_input g"
  "g_output (print s g) = g_output g @ [s]"
  by (simp_all add: print_def)

lemma next_input_rest: "next_input inp = (r, rest) \<Longrightarrow> rest = tl inp"
  by (cases inp rule: next_input.cases) auto

lemma play_move_cases:
  assumes "play_move g move = Some oc"
  shows "(valid_move (g_board g) (g_turn g) move = Some (Inr False)
          \<and> oc = MoveRejected (print ''Invalid move. Try again.'' g))
       \<or> (\<exists>board'. valid_move (g_board g) (g_turn g) move = Some (Inr True)
          \<and> apply_move (g_board g) (g_turn g) move = Some (Inr board')
          \<and> oc = MoveApplied (print [] (g\<lparr>g_board := board', g_turn := switch_turn (g_turn g)\<rparr>)))
       \<or> (\<exists>e. oc = Uncaught e)"
  using assms unfolding play_move_def
  by (auto split: option.splits sum.splits bool.splits)

lemma board_get_raises: "board_get b r c = Inl e \<Longrightarrow> e = IndexError"
  by (auto simp: board_get_def py_index_def split: sum.splits if_splits)

lemma is_flippable_line_raises:
  assumes "is_flippable_line b m c d fo = Some (Inl e)"
  shows "e = IndexError"
proof -
  have "Inl e = (Inl e :: exn + bool) \<longrightarrow> e = IndexError"
  proof (rule is_flippable_line.raw_induct
      [where P = "\<lambda>b m c d fo y. y = Inl e \<longrightarrow> e = IndexError", OF _ assms])
    fix f b m c d fo y
    assume IH: "\<And>b m c d fo y. f b m c d fo = Some y \<Longrightarrow> y = Inl e \<longrightarrow> e = IndexError"
      and body: "(let row = fst m + fst d; col = snd m + snd d
          in if \<not> (0 \<le> row \<and> row < SIZE \<and> 0 \<le> col \<and> col < SIZE)
             then Some (Inr False)
             else case board_get b row col of Inl e \<Rightarrow> Some (Inl e)
                  | Inr cl \<Rightarrow>
                      if cl = None then Some (Inr False)
                      else if cl = Some c then Some (Inr fo)
                           else f b (row, col) c d True) = Some y"
    show "y = Inl e \<longrightarrow> e = IndexError"
      using body IH board_get_raises
      by (auto simp: Let_def split: if_splits sum.splits)
  qed
  then show ?thesis by simp
qed

lemma valid_move_loop_raises:
  "valid_move_loop b c m ds = Some (Inl e) \<Longrightarrow> e = IndexError"
  by (induction ds) (auto split: option.splits sum.splits bool.splits dest: is_flippable_line_raises)

lemma valid_move_raises: "valid_move b c m = Some (Inl e) \<Longrightarrow> e = IndexError"
  by (auto simp: valid_move_def split: if_splits sum.splits dest: board_get_raises valid_move_loop_raises)

lemma no_valid_moves_loop_raises:
  "no_valid_moves_loop b c ms = Some (Inl e) \<Longrightarrow> e = IndexError"
  by (induction ms) (auto split: option.splits sum.splits bool.splits dest: valid_move_raises)

lemma no_valid_moves_raises: "no_valid_moves b c = Some (Inl e) \<Longrightarrow> e = IndexError"
  unfolding no_valid_moves_def by (rule no_valid_moves_loop_raises)

lemma loop_body_cases:
  assumes "loop_body g = Some oc"
  shows "(no_valid_moves (g_board g) (g_turn g) = Some (Inr True)
          \<and> (\<exists>g'. (oc = Skipped g' \<and> g_skip g' < 2
                    \<or> oc = Finished (print (count_tokens_and_determine_winner (g_board g)) g')
                      \<and> g_skip g' \<ge> 2)
                \<and> g_board g' = g_board g \<and> g_turn g' = switch_turn (g_turn g)
                \<and> g_skip g' = g_skip g + 1 \<and> g_input g' = g_input g
                \<and> g_output g' = g_output g @ [board_str (g_board g),
                     name_lower (g_turn g) @ '' has no valid moves. Skipping turn.'', [] ]))
       \<or> (no_valid_moves (g_board g) (g_turn g) = Some (Inr False)
          \<and> (\<exists>gp. g_board gp = g_board g \<and> g_turn gp = g_turn g \<and> g_skip gp = 0
                \<and> g_input gp = tl (g_input g)
                \<and> g_output gp = g_output g @ [board_str (g_board g),
                     ''Enter move for '' @ name_lower (g_turn g) @ '': '']
                \<and> ((\<exists>e. oc = handlers e gp) \<or> (\<exists>move. play_move gp move = Some oc))))
       \<or> (no_valid_moves (g_board g) (g_turn g) = Some (Inl IndexError)
              \<and> oc = Uncaught IndexError)"
proof (cases "no_valid_moves (g_board g) (g_turn g)")
  case None
  with assms show ?thesis by (simp add: loop_body_def Let_def)
next
  case (Some r)
  show ?thesis
  proof (cases r)
    case (Inl e)
    with Some no_valid_moves_raises have "e = IndexError" by blast
    with Inl Some assms show ?thesis by (auto simp: loop_body_def Let_def handlers_def)
  next
    case (Inr nv)
    show ?thesis
    proof (cases nv)
      case True
      with Some Inr assms show ?thesis
        by (auto simp: loop_body_def Let_def split: if_splits)
    next
      case False
      obtain r rest where ni: "next_input (g_input g) = (r, rest)" by (cases "next_input (g_input g)")
      then have rest: "rest = tl (g_input g)" by (rule next_input_rest)
      define gp where "gp = (print (''Enter move for '' @ name_lower (g_turn g) @ '': '')
           ((print (board_str (g_board g)) g)\<lparr>g_skip := 0\<rparr>))\<lparr>g_input := rest\<rparr>"
      have gp: "g_board gp = g_board g" "g_turn gp = g_turn g" "g_skip gp = 0"
        "g_input gp = tl (g_input g)"
        "g_output gp = g_output g @ [board_str (g_board g),
                     ''Enter move for '' @ name_lower (g_turn g) @ '': '']"
        by (simp_all add: gp_def rest print_def)
      have alt: "(\<exists>e. oc = handlers e gp) \<or> (\<exists>move. play_move gp move = Some oc)"
        using assms Some Inr False ni
        by (auto simp: loop_body_def Let_def gp_def split: sum.splits)
      have nv: "no_valid_moves (g_board g) (g_turn g) = Some (Inr False)"
        using Some Inr False by simp
      have "no_valid_moves (g_board g) (g_turn g) = Some (Inr False)
          \<and> (\<exists>gp. g_board gp = g_board g \<and> g_turn gp = g_turn g \<and> g_skip gp = 0
                \<and> g_input gp = tl (g_input g)
                \<and> g_output gp = g_output g @ [board_str (g_board g),
                     ''Enter move for '' @ name_lower (g_turn g) @ '': '']
                \<and> ((\<exists>e. oc = handlers e gp) \<or> (\<exists>move. play_move gp move = Some oc)))"
        by (intro conjI exI[of _ gp] nv gp alt)
      then show ?thesis by (rule disjI2[OF disjI1])
    qed
  qed
qed

lemma loop_body_rejected:
  assumes "loop_body g = Some oc" "oc = ParseRejected g' \<or> oc = MoveRejected g'"
  shows "g_board g' = g_board g \<and> g_turn g' = g_turn g \<and> g_skip g' = 0
    \<and> g_input g' = tl (g_input g)
    \<and> no_valid_moves (g_board g) (g_turn g) = Some (Inr False)"
  using loop_body_cases[OF assms(1)] assms(2)
  by (auto dest!: handlers_cases[OF sym] play_move_cases)

lemma loop_body_skipped:
  assumes "loop_body g = Some (Skipped g')"
  shows "g_board g' = g_board g \<and> g_turn g' = switch_turn (g_turn g)
    \<and> g_skip g' = g_skip g + 1 \<and> g_skip g' < 2 \<and> g_input g' = g_input g
    \<and> no_valid_moves (g_board g) (g_turn g) = Some (Inr True)"
  using loop_body_cases[OF assms]
  by (auto dest!: handlers_cases[OF sym] play_move_cases)

lemma loop_body_finished:
  assumes "loop_body g = Some (Finished g')"
  shows "g_board g' = g_board g \<and> g_turn g' = switch_turn (g_turn g)
    \<and> g_skip g' = g_skip g + 1 \<and> g_skip g' \<ge> 2 \<and> g_input g' = g_input g
    \<and> no_valid_moves (g_board g) (g_turn g) = Some (Inr True)
    \<and> g_output g' = g_output g @ [board_str (g_board g),
          name_lower (g_turn g) @ '' has no valid moves. Skipping turn.'', [],
          count_tokens_and_determine_winner (g_board g)]"
  using loop_body_cases[OF assms]
  by (auto dest!: handlers_cases[OF sym] play_move_cases)

lemma loop_body_applied:
  assumes "loop_body g = Some (MoveApplied g')"
  shows "\<exists>move. valid_move (g_board g) (g_turn g) move = Some (Inr True)
    \<and> apply_move (g_board g) (g_turn g) move = Some (Inr (g_board g'))
    \<and> g_turn g' = switch_turn (g_turn g) \<and> g_skip g' = 0
    \<and> g_input g' = tl (g_input g)
    \<and> no_valid_moves (g_board g) (g_turn g) = Some (Inr False)"
  using loop_body_cases[OF assms]
  by (auto dest!: handlers_cases[OF sym] play_move_cases) blast

lemma loop_body_stopped:
  assumes "loop_body g = Some oc" "oc = InputClosed g' \<or> oc = Interrupted g'"
  shows "g_board g' = g_board g"
  using loop_body_cases[OF assms(1)] assms(2)
  by (auto dest!: handlers_cases[OF sym] play_move_cases)

lemma loop_body_skips:
  assumes "no_valid_moves (g_board g) (g_turn g) = Some (Inr True)"
  shows "\<exists>g'. (loop_body g = Some (Skipped g') \<or> loop_body g = Some (Finished g'))
     \<and> (g_skip g + 1 < 2 \<longrightarrow> loop_body g = Some (Skipped g'))
     \<and> g_skip g' = g_skip g + 1 \<and> g_turn g' = switch_turn (g_turn g)
     \<and> g_board g' = g_board g \<and> g_input g' = g_input g"
  using assms by (auto simp: loop_body_def Let_def)

lemma iterate_loop_add:
  "iterate_loop (k + j) g n =
     (case iterate_loop k g n of None \<Rightarrow> None | Some (g', n') \<Rightarrow> iterate_loop j g' n')"
proof (induction k arbitrary: g n)
  case 0
  then show ?case by simp
next
  case (Suc k)
  then show ?case by (simp split: option.splits outcome.splits)
qed

lemma reaches_iterate_loop:
  assumes "reaches inp n g"
  shows "\<exists>k. iterate_loop k (initial_game initial_board inp) 0 = Some (g, n)"
  using assms
proof (induction rule: reaches.induct)
  case (start board)
  have "Inr board = (Inr initial_board :: exn + Board)"
    using start setup_board_eq by (rule trans[OF sym])
  then have "iterate_loop 0 (initial_game initial_board inp) 0 = Some (initial_game board inp, 0)"
    by simp
  then show ?case by blast
next
  case (skipped n g g')
  then obtain k where "iterate_loop k (initial_game initial_board inp) 0 = Some (g, n)" by blast
  with skipped.hyps(2) have "iterate_loop (k + 1) (initial_game initial_board inp) 0 = Some (g', n)"
    unfolding iterate_loop_add by simp
  then show ?case by blast
next
  case (parse_rejected n g g')
  then obtain k where "iterate_loop k (initial_game initial_board inp) 0 = Some (g, n)" by blast
  with parse_rejected.hyps(2) have "iterate_loop (k + 1) (initial_game initial_board inp) 0 = Some (g', n)"
    unfolding iterate_loop_add by simp
  then show ?case by blast
next
  case (move_rejected n g g')
  then obtain k where "iterate_loop k (initial_game initial_board inp) 0 = Some (g, n)" by blast
  with move_rejected.hyps(2) have "iterate_loop (k + 1) (initial_game initial_board inp) 0 = Some (g', n)"
    unfolding iterate_loop_add by simp
  then show ?case by blast
next
  case (move_applied n g g')
  then obtain k where "iterate_loop k (initial_game initial_board inp) 0 = Some (g, n)" by blast
  with move_applied.hyps(2) have "iterate_loop (k + 1) (initial_game initial_board inp) 0 = Some (g', Suc n)"
    unfolding iterate_loop_add by simp
  then show ?case by blast
qed

lemma reaches_iff_iterate_loop:
  "reaches inp n g \<longleftrightarrow> (\<exists>k. iterate_loop k (initial_game initial_board inp) 0 = Some (g, n))"
  using reaches_iterate_loop iterate_loop_reaches[OF reaches.start[OF setup_board_eq] ] by blast

section \<open>Invariants of the game\<close>

lemma flipped_cells_opp:
  assumes "q \<in> flipped_cells b c m"
  shows "on_board q \<and> at b q = Inr (Some (opposite c))"
  using assms unfolding flipped_cells_def line_cells_def opp_run_def by auto

lemma apply_move_occupied:
  assumes "wf_board b" "valid_move b c m = Some (Inr True)" "apply_move b c m = Some (Inr b')"
  shows "wf_board b' \<and> occupied b' = occupied b + 1"
proof -
  have m: "on_board m" "at b m = Inr None" using valid_move_True[OF assms(1,2)] by simp_all
  from apply_move_effect[OF assms(1) m, of c] assms(3)
  have wf': "wf_board b'"
    and cells: "\<And>q. on_board q \<Longrightarrow>
          at b' q = (if q = m \<or> q \<in> flipped_cells b c m then Inr (Some c) else at b q)"
    by auto
  have "occupied_cells b' = insert m (occupied_cells b)"
  proof (intro set_eqI iffI)
    fix q assume "q \<in> occupied_cells b'"
    then show "q \<in> insert m (occupied_cells b)"
      using cells[of q] flipped_cells_opp[of q b c m]
      by (auto simp: occupied_cells_def split: if_splits)
  next
    fix q assume q: "q \<in> insert m (occupied_cells b)"
    then have ob: "on_board q" using m(1) by (auto simp: occupied_cells_def)
    show "q \<in> occupied_cells b'"
    proof (cases "q = m \<or> q \<in> flipped_cells b c m")
      case True
      then have "at b' q = Inr (Some c)" using cells[OF ob] by simp
      then show ?thesis using ob by (simp add: occupied_cells_def)
    next
      case False
      then have "at b' q = at b q" using cells[OF ob] by simp
      moreover from False q have "at b q \<noteq> Inr None" by (simp add: occupied_cells_def)
      ultimately show ?thesis using ob by (simp add: occupied_cells_def)
    qed
  qed
  moreover have "m \<notin> occupied_cells b" using m by (simp add: occupied_cells_def)
  ultimately have "card (occupied_cells b') = card (occupied_cells b) + 1"
    using finite_occupied_cells[of b] by simp
  then show ?thesis using wf' occupied_card[OF wf'] occupied_card[OF assms(1)] by simp
qed

lemma occupied_initial_board: "occupied initial_board = 4"
  by (simp add: occupied_def initial_board_def)

lemma reaches_inv:
  assumes "reaches inp n g"
  shows "wf_board (g_board g) \<and> occupied (g_board g) = 4 + n
    \<and> 0 \<le> g_skip g \<and> g_skip g \<le> 1
    \<and> (g_skip g = 1 \<longrightarrow> (\<exists>gp. reaches inp n gp \<and> loop_body gp = Some (Skipped g)))"
  using assms
proof (induction rule: reaches.induct)
  case (start board)
  have "Inr board = (Inr initial_board :: exn + Board)"
    using start setup_board_eq by (rule trans[OF sym])
  then have "board = initial_board" by simp
  then show ?case
    by (simp add: initial_game_def wf_initial_board occupied_initial_board)
next
  case (skipped n g g')
  from loop_body_skipped[OF skipped.hyps(2)] skipped.IH
  have "wf_board (g_board g')" "occupied (g_board g') = 4 + n" "0 \<le> g_skip g'" "g_skip g' \<le> 1"
    by auto
  moreover have "\<exists>gp. reaches inp n gp \<and> loop_body gp = Some (Skipped g')"
    using skipped.hyps by blast
  ultimately show ?case by blast
next
  case (parse_rejected n g g')
  from loop_body_rejected[OF parse_rejected.hyps(2), of g'] parse_rejected.IH
  show ?case by auto
next
  case (move_rejected n g g')
  from loop_body_rejected[OF move_rejected.hyps(2), of g'] move_rejected.IH
  show ?case by auto
next
  case (move_applied n g g')
  from loop_body_applied[OF move_applied.hyps(2)] obtain move where
    mv: "valid_move (g_board g) (g_turn g) move = Some (Inr True)"
      "apply_move (g_board g) (g_turn g) move = Some (Inr (g_board g'))" "g_skip g' = 0"
    by blast
  from move_applied.IH have wf: "wf_board (g_board g)" and occ: "occupied (g_board g) = 4 + n"
    by simp_all
  from apply_move_occupied[OF wf mv(1,2)] occ mv(3) show ?case by simp
qed

lemma switch_turn_twice [simp]: "switch_turn (switch_turn c) = c"
  by (cases c) (simp_all add: switch_turn_def)

lemma colour_cases: "c = BLACK \<or> c = WHITE"
  by (cases c) simp_all

lemma game_loop_finished:
  assumes "game_loop g = Some (Finished g')"
  shows "\<exists>g0. loop_body g0 = Some (Finished g')"
proof -
  have "Finished g' = Finished g' \<longrightarrow> (\<exists>g0. loop_body g0 = Some (Finished g'))"
  proof (rule game_loop.raw_induct
      [where P = "\<lambda>g oc. oc = Finished g' \<longrightarrow> (\<exists>g0. loop_body g0 = Some (Finished g'))", OF _ assms])
    fix f g oc
    assume IH: "\<And>g oc. f g = Some oc \<Longrightarrow> oc = Finished g' \<longrightarrow> (\<exists>g0. loop_body g0 = Some (Finished g'))"
      and body: "(case loop_body g of
        None \<Rightarrow> None
      | Some (Skipped g') \<Rightarrow> f g'
      | Some (ParseRejected g') \<Rightarrow> f g'
      | Some (MoveRejected g') \<Rightarrow> f g'
      | Some (MoveApplied g') \<Rightarrow> f g'
      | Some (Finished g') \<Rightarrow> Some (Finished g')
      | Some (InputClosed g') \<Rightarrow> Some (InputClosed g')
      | Some (Interrupted g') \<Rightarrow> Some (Interrupted g')
      | Some (Uncaught e) \<Rightarrow> Some (Uncaught e)) = Some oc"
    show "oc = Finished g' \<longrightarrow> (\<exists>g0. loop_body g0 = Some (Finished g'))"
      using body IH by (auto split: option.splits outcome.splits)
  qed
  then show ?thesis by simp
qed

lemma winner_by_counts:
  "count_tokens_and_determine_winner board =
     (if black_count board > white_count board then ''Black wins!''
      else if white_count board > black_count board then ''White wins!''
      else ''It's a tie!'')"
  by (simp add: count_tokens_and_determine_winner_def count_tokens_counts)

lemma full_board_no_moves:
  assumes "wf_board b" "is_board_full b"
  shows "no_valid_moves b c = Some (Inr True)"
proof -
  have "\<not> spec_is_legal_move b c m" for m
  proof
    assume l: "spec_is_legal_move b c m"
    then have m: "on_board m" "at b m = Inr None" by (simp_all add: spec_is_legal_move_def)
    then have "b ! nat (fst m) ! nat (snd m) = None" using at_wf[OF assms(1) m(1)] by simp
    moreover have "nat (fst m) < length b" "nat (snd m) < length (b ! nat (fst m))"
      using m(1) assms(1) wf_board_row[OF assms(1), of "fst m"]
      by (auto simp: on_board_def SIZE_def wf_board_def)
    moreover have "b ! i ! j \<noteq> None" if "i < length b" "j < length (b ! i)" for i j
      using assms(2) that by (simp add: is_board_full_def list_all_length)
    ultimately show False by blast
  qed
  then show ?thesis using no_valid_moves_spec[OF assms(1), of c] by simp
qed

lemma reaches_finished:
  assumes "reaches inp n g" "loop_body g = Some (Finished g')"
  shows "g_skip g' = 2 \<and> g_board g' = g_board g
    \<and> (\<exists>gp. reaches inp n gp \<and> loop_body gp = Some (Skipped g)
          \<and> g_board gp = g_board g \<and> g_turn gp = switch_turn (g_turn g)
          \<and> no_valid_moves (g_board g) (g_turn gp) = Some (Inr True))
    \<and> no_valid_moves (g_board g) (g_turn g) = Some (Inr True)
    \<and> no_valid_moves (g_board g') BLACK = Some (Inr True)
    \<and> no_valid_moves (g_board g') WHITE = Some (Inr True)"
proof -
  from loop_body_finished[OF assms(2)] have f: "g_board g' = g_board g" "g_skip g' = g_skip g + 1"
    "g_skip g' \<ge> 2" "no_valid_moves (g_board g) (g_turn g) = Some (Inr True)" by simp_all
  from reaches_inv[OF assms(1)] f have sk: "g_skip g = 1" by simp
  with reaches_inv[OF assms(1)] obtain gp where gp: "reaches inp n gp" "loop_body gp = Some (Skipped g)"
    by blast
  from loop_body_skipped[OF gp(2)] have p: "g_board g = g_board gp" "g_turn g = switch_turn (g_turn gp)"
    "no_valid_moves (g_board gp) (g_turn gp) = Some (Inr True)" by simp_all
  have both: "no_valid_moves (g_board g) c = Some (Inr True)" for c
    using f(4) p colour_cases[of c] colour_cases[of "g_turn gp"]
    by (auto simp: switch_turn_def split: if_splits)
  have tp: "g_turn gp = switch_turn (g_turn g)" using p(2) by simp
  have ex: "\<exists>gp. reaches inp n gp \<and> loop_body gp = Some (Skipped g)
          \<and> g_board gp = g_board g \<and> g_turn gp = switch_turn (g_turn g)
          \<and> no_valid_moves (g_board g) (g_turn gp) = Some (Inr True)"
    by (intro exI[of _ gp] conjI gp p(1)[symmetric] tp both)
  have "g_skip g' = 2" using f(2) sk by simp
  with f(1) ex both[of "g_turn g"] both[of BLACK] both[of WHITE] show ?thesis by simp
qed

lemma game_loop_finished_reaches:
  assumes "game_loop g = Some (Finished g')" "reaches inp n g"
  shows "\<exists>n' g0. reaches inp n' g0 \<and> loop_body g0 = Some (Finished g')"
proof -
  have "\<forall>n. reaches inp n g \<longrightarrow> Finished g' = Finished g'
      \<longrightarrow> (\<exists>n' g0. reaches inp n' g0 \<and> loop_body g0 = Some (Finished g'))"
  proof (rule game_loop.raw_induct
      [where P = "\<lambda>g oc. \<forall>n. reaches inp n g \<longrightarrow> oc = Finished g'
          \<longrightarrow> (\<exists>n' g0. reaches inp n' g0 \<and> loop_body g0 = Some (Finished g'))", OF _ assms(1)])
    fix f g oc
    assume IH: "\<And>g oc. f g = Some oc \<Longrightarrow> \<forall>n. reaches inp n g \<longrightarrow> oc = Finished g'
          \<longrightarrow> (\<exists>n' g0. reaches inp n' g0 \<and> loop_body g0 = Some (Finished g'))"
      and body: "(case loop_body g of
        None \<Rightarrow> None
      | Some (Skipped g') \<Rightarrow> f g'
      | Some (ParseRejected g') \<Rightarrow> f g'
      | Some (MoveRejected g') \<Rightarrow> f g'
      | Some (MoveApplied g') \<Rightarrow> f g'
      | Some (Finished g') \<Rightarrow> Some (Finished g')
      | Some (InputClosed g') \<Rightarrow> Some (InputClosed g')
      | Some (Interrupted g') \<Rightarrow> Some (Interrupted g')
      | Some (Uncaught e) \<Rightarrow> Some (Uncaught e)) = Some oc"
    show "\<forall>n. reaches inp n g \<longrightarrow> oc = Finished g'
          \<longrightarrow> (\<exists>n' g0. reaches inp n' g0 \<and> loop_body g0 = Some (Finished g'))"
    proof (intro allI impI)
      fix n assume r: "reaches inp n g" and oc: "oc = Finished g'"
      obtain o1 where o1: "loop_body g = Some o1" using body by (cases "loop_body g") auto
      show "\<exists>n' g0. reaches inp n' g0 \<and> loop_body g0 = Some (Finished g')"
      proof (cases o1)
        case (Skipped g1)
        with body o1 have "f g1 = Some oc" by simp
        from IH[OF this] reaches.skipped[OF r] o1 Skipped oc show ?thesis by blast
      next
        case (ParseRejected g1)
        with body o1 have "f g1 = Some oc" by simp
        from IH[OF this] reaches.parse_rejected[OF r] o1 ParseRejected oc show ?thesis by blast
      next
        case (MoveRejected g1)
        with body o1 have "f g1 = Some oc" by simp
        from IH[OF this] reaches.move_rejected[OF r] o1 MoveRejected oc show ?thesis by blast
      next
        case (MoveApplied g1)
        with body o1 have "f g1 = Some oc" by simp
        from IH[OF this] reaches.move_applied[OF r] o1 MoveApplied oc show ?thesis by blast
      next
        case (Finished g1)
        with body o1 oc have "loop_body g = Some (Finished g')" by simp
        with r show ?thesis by blast
      next
        case (InputClosed g1)
        with body o1 oc show ?thesis by simp
      next
        case (Interrupted g1)
        with body o1 oc show ?thesis by simp
      next
        case (Uncaught e)
        with body o1 oc show ?thesis by simp
      qed
    qed
  qed
  with assms(2) show ?thesis by blast
qed

lemma play_game_finished:
  assumes "play_game inp = Some (Finished g')"
  shows "\<exists>n g0. reaches inp n g0 \<and> loop_body g0 = Some (Finished g')"
proof -
  have r: "reaches inp 0 (initial_game initial_board inp)"
    by (rule reaches.start[OF setup_board_eq])
  from assms have "game_loop (initial_game initial_board inp) = Some (Finished g')"
    by (simp add: play_game_def setup_board_eq)
  from game_loop_finished_reaches[OF this r] show ?thesis .
qed

lemma parse_coordinate_raises:
  "parse_coordinate s = Inl e \<Longrightarrow> \<exists>msg. e = CoordinateParseError msg"
  by (auto simp: parse_coordinate_def Let_def split: if_splits)

lemma loop_body_parse_error:
  assumes "no_valid_moves (g_board g) (g_turn g) = Some (Inr False)" "g_input g = Line s # rest"
    "parse_coordinate (rstrip s) = Inl e"
  shows "\<exists>g'. loop_body g = Some (ParseRejected g')"
  using assms parse_coordinate_raises[OF assms(3)]
  by (auto simp: loop_body_def Let_def handlers_def)

lemma loop_body_invalid_move:
  assumes "no_valid_moves (g_board g) (g_turn g) = Some (Inr False)" "g_input g = Line s # rest"
    "parse_coordinate (rstrip s) = Inr move" "valid_move (g_board g) (g_turn g) move = Some (Inr False)"
  shows "\<exists>g'. loop_body g = Some (MoveRejected g')"
  using assms by (auto simp: loop_body_def Let_def play_move_def)

lemma short_game_run:
  "case iterate_loop 9 (initial_game initial_board short_game) 0 of
     Some (g, n) \<Rightarrow>
       n = 9 \<and> g_skip g = 0 \<and> g_turn g = WHITE \<and> occupied (g_board g) = 13
       \<and> no_valid_moves (g_board g) (g_turn g) = Some (Inr True)
       \<and> (case loop_body g of
            Some (Skipped g1) \<Rightarrow>
              g_skip g1 = 1
              \<and> (case loop_body g1 of
                   Some (Finished g2) \<Rightarrow>
                     g_skip g2 = 2 \<and> last (g_output g2) = ''Black wins!''
                     \<and> black_count (g_board g2) = 13 \<and> white_count (g_board g2) = 0
                 | _ \<Rightarrow> False)
          | _ \<Rightarrow> False)
   | None \<Rightarrow> False"
  by code_simp

lemma short_game_states:
  obtains g g1 g2 where "reaches short_game 9 g" "g_skip g = 0" "occupied (g_board g) = 13"
    "no_valid_moves (g_board g) (g_turn g) = Some (Inr True)"
    "loop_body g = Some (Skipped g1)" "g_skip g1 = 1" "reaches short_game 9 g1"
    "loop_body g1 = Some (Finished g2)" "g_skip g2 = 2" "last (g_output g2) = ''Black wins!''"
    "black_count (g_board g2) = 13" "white_count (g_board g2) = 0"
proof -
  from short_game_run obtain g where
    it: "iterate_loop 9 (initial_game initial_board short_game) 0 = Some (g, 9)"
    and g: "g_skip g = 0" "occupied (g_board g) = 13"
      "no_valid_moves (g_board g) (g_turn g) = Some (Inr True)"
    and rest: "case loop_body g of
            Some (Skipped g1) \<Rightarrow>
              g_skip g1 = 1
              \<and> (case loop_body g1 of
                   Some (Finished g2) \<Rightarrow>
                     g_skip g2 = 2 \<and> last (g_output g2) = ''Black wins!''
                     \<and> black_count (g_board g2) = 13 \<and> white_count (g_board g2) = 0
                 | _ \<Rightarrow> False)
          | _ \<Rightarrow> False"
    by (cases "iterate_loop 9 (initial_game initial_board short_game) 0") auto
  from rest obtain g1 where g1: "loop_body g = Some (Skipped g1)" "g_skip g1 = 1"
    and rest1: "case loop_body g1 of
                   Some (Finished g2) \<Rightarrow>
                     g_skip g2 = 2 \<and> last (g_output g2) = ''Black wins!''
                     \<and> black_count (g_board g2) = 13 \<and> white_count (g_board g2) = 0
                 | _ \<Rightarrow> False"
    by (cases "loop_body g") (auto split: outcome.splits)
  from rest1 obtain g2 where g2: "loop_body g1 = Some (Finished g2)" "g_skip g2 = 2"
    "last (g_output g2) = ''Black wins!''" "black_count (g_board g2) = 13" "white_count (g_board g2) = 0"
    by (cases "loop_body g1") (auto split: outcome.splits)
  have r0: "reaches short_game 0 (initial_game initial_board short_game)"
    by (rule reaches.start[OF setup_board_eq])
  have r: "reaches short_game 9 g" by (rule iterate_loop_reaches[OF r0 it])
  have r1: "reaches short_game 9 g1" by (rule reaches.skipped[OF r g1(1)])
  from that[OF r g g1 r1 g2] show thesis .
qed

text \<open>
  C4: in every state at the head of the loop of \<open>play_game\<close>, after \<open>n\<close> applied moves, the
  board is 8 by 8, the number of occupied cells is \<open>4 + n\<close> and at most 64, and it is the
  sum of the two counts that \<open>count_tokens_and_determine_winner\<close> computes. An applied move
  adds exactly one disc; every other way out of the loop body, the three \<open>break\<close> paths
  included, leaves the board as it is.
\<close>

theorem C4_disc_count:
  assumes "reaches inp n g"
  shows "wf_board (g_board g)
    \<and> occupied (g_board g) = 4 + n
    \<and> occupied (g_board g) \<le> 64
    \<and> count_tokens (g_board g) (0, 0) = (int (black_count (g_board g)), int (white_count (g_board g)))
    \<and> black_count (g_board g) + white_count (g_board g) = occupied (g_board g)
    \<and> (\<forall>g'. loop_body g = Some (MoveApplied g')
          \<longrightarrow> reaches inp (Suc n) g' \<and> occupied (g_board g') = occupied (g_board g) + 1)
    \<and> (\<forall>g'. loop_body g = Some (Skipped g') \<or> loop_body g = Some (ParseRejected g')
            \<or> loop_body g = Some (MoveRejected g') \<or> loop_body g = Some (Finished g')
            \<or> loop_body g = Some (InputClosed g') \<or> loop_body g = Some (Interrupted g')
          \<longrightarrow> g_board g' = g_board g)"
proof -
  from reaches_inv[OF assms] have wf: "wf_board (g_board g)" and occ: "occupied (g_board g) = 4 + n"
    by simp_all
  have applied: "reaches inp (Suc n) g' \<and> occupied (g_board g') = occupied (g_board g) + 1"
    if "loop_body g = Some (MoveApplied g')" for g'
  proof -
    have r: "reaches inp (Suc n) g'" by (rule reaches.move_applied[OF assms that])
    from reaches_inv[OF r] occ r show ?thesis by simp
  qed
  have same: "g_board g' = g_board g"
    if "loop_body g = Some (Skipped g') \<or> loop_body g = Some (ParseRejected g')
            \<or> loop_body g = Some (MoveRejected g') \<or> loop_body g = Some (Finished g')
            \<or> loop_body g = Some (InputClosed g') \<or> loop_body g = Some (Interrupted g')" for g'
    using that loop_body_skipped[of g g'] loop_body_rejected[of g _ g'] loop_body_finished[of g g']
      loop_body_stopped[of g _ g'] by blast
  from wf occ occupied_le_64[OF wf] count_tokens_counts[of "g_board g"]
    occupied_counts[of "g_board g"] applied same
  show ?thesis by simp
qed

theorem C4_disc_count_witness:
  "reaches short_game 0 (initial_game initial_board short_game)
   \<and> occupied initial_board = 4
   \<and> (\<exists>g'. loop_body (initial_game initial_board short_game) = Some (MoveApplied g')
         \<and> occupied (g_board g') = 5)
   \<and> (\<exists>g g'. reaches short_game 9 g \<and> loop_body g = Some (Skipped g')
         \<and> occupied (g_board g) = 13 \<and> g_board g' = g_board g)"
proof -
  have r0: "reaches short_game 0 (initial_game initial_board short_game)"
    by (rule reaches.start[OF setup_board_eq])
  have "case loop_body (initial_game initial_board short_game) of
          Some (MoveApplied g') \<Rightarrow> True | _ \<Rightarrow> False" by code_simp
  then obtain g' where g': "loop_body (initial_game initial_board short_game) = Some (MoveApplied g')"
    by (auto split: option.splits outcome.splits)
  from C4_disc_count[OF r0] g'
  have a: "occupied (g_board g') = 5" "occupied initial_board = 4" by (simp_all add: initial_game_def)
  obtain g g1 where g: "reaches short_game 9 g" "loop_body g = Some (Skipped g1)"
    using short_game_states by metis
  from C4_disc_count[OF g(1)] g(2) have "occupied (g_board g) = 13" "g_board g1 = g_board g"
    by simp_all
  with r0 a g g' show ?thesis by blast
qed

text \<open>
  C5: at the head of the loop the skip counter is 0 or 1. On a turn where the player to
  move has no valid move the counter goes up by exactly 1, the turn passes to the opponent
  and nothing else changes; after an applied move the counter is 0. A skip that leaves the
  loop running has the counter at 1. The loop ends by its own rule only with the counter
  at 2, and then the iteration before was a skip of the other player on the same board:
  two consecutive turns without a valid move. A full board is not a trigger: from a state
  with a full board and the counter at 0 the iteration is a skip and the loop goes on.
\<close>

theorem C5_skip_counter:
  assumes "reaches inp n g"
  shows "0 \<le> g_skip g \<and> g_skip g \<le> 1
    \<and> (no_valid_moves (g_board g) (g_turn g) = Some (Inr True) \<longrightarrow>
         (\<exists>g'. (loop_body g = Some (Skipped g') \<or> loop_body g = Some (Finished g'))
            \<and> g_skip g' = g_skip g + 1 \<and> g_turn g' = switch_turn (g_turn g)
            \<and> g_board g' = g_board g \<and> g_input g' = g_input g))
    \<and> (\<forall>g'. loop_body g = Some (MoveApplied g') \<longrightarrow> g_skip g' = 0)
    \<and> (\<forall>g'. loop_body g = Some (Skipped g') \<longrightarrow> g_skip g = 0 \<and> g_skip g' = 1)
    \<and> (\<forall>g'. loop_body g = Some (Finished g') \<longrightarrow>
          g_skip g' = 2
          \<and> (\<exists>gp. reaches inp n gp \<and> loop_body gp = Some (Skipped g)
                \<and> g_board gp = g_board g \<and> g_turn gp = switch_turn (g_turn g)
                \<and> no_valid_moves (g_board g) (g_turn gp) = Some (Inr True))
          \<and> no_valid_moves (g_board g) (g_turn g) = Some (Inr True))
    \<and> (wf_board (g_board h) \<and> is_board_full (g_board h) \<and> g_skip h = 0
          \<longrightarrow> (\<exists>h'. loop_body h = Some (Skipped h') \<and> g_skip h' = 1))"
proof -
  from reaches_inv[OF assms] have sk: "0 \<le> g_skip g" "g_skip g \<le> 1" by simp_all
  have a: "\<exists>g'. (loop_body g = Some (Skipped g') \<or> loop_body g = Some (Finished g'))
            \<and> g_skip g' = g_skip g + 1 \<and> g_turn g' = switch_turn (g_turn g)
            \<and> g_board g' = g_board g \<and> g_input g' = g_input g"
    if "no_valid_moves (g_board g) (g_turn g) = Some (Inr True)"
    using loop_body_skips[OF that] by blast
  have b: "g_skip g' = 0" if "loop_body g = Some (MoveApplied g')" for g'
    using loop_body_applied[OF that] by blast
  have c: "g_skip g = 0 \<and> g_skip g' = 1" if "loop_body g = Some (Skipped g')" for g'
    using loop_body_skipped[OF that] sk by simp
  have d: "g_skip g' = 2
          \<and> (\<exists>gp. reaches inp n gp \<and> loop_body gp = Some (Skipped g)
                \<and> g_board gp = g_board g \<and> g_turn gp = switch_turn (g_turn g)
                \<and> no_valid_moves (g_board g) (g_turn gp) = Some (Inr True))
          \<and> no_valid_moves (g_board g) (g_turn g) = Some (Inr True)"
    if "loop_body g = Some (Finished g')" for g'
    using reaches_finished[OF assms that] by simp
  have e: "\<exists>h'. loop_body h = Some (Skipped h') \<and> g_skip h' = 1"
    if "wf_board (g_board h) \<and> is_board_full (g_board h) \<and> g_skip h = 0"
  proof -
    from that full_board_no_moves have "no_valid_moves (g_board h) (g_turn h) = Some (Inr True)"
      by blast
    from loop_body_skips[OF this] that show ?thesis by auto
  qed
  from sk a b c d e show ?thesis by blast
qed

theorem C5_skip_counter_witness:
  "reaches short_game 0 (initial_game initial_board short_game)
   \<and> (\<exists>g'. loop_body (initial_game initial_board short_game) = Some (MoveApplied g') \<and> g_skip g' = 0)
   \<and> (\<exists>g g1 g2. reaches short_game 9 g
         \<and> no_valid_moves (g_board g) (g_turn g) = Some (Inr True)
         \<and> loop_body g = Some (Skipped g1) \<and> g_skip g = 0 \<and> g_skip g1 = 1
         \<and> reaches short_game 9 g1
         \<and> loop_body g1 = Some (Finished g2) \<and> g_skip g2 = 2)
   \<and> wf_board (g_board full_black_game) \<and> is_board_full (g_board full_black_game)
   \<and> g_skip full_black_game = 0
   \<and> (\<exists>h'. loop_body full_black_game = Some (Skipped h') \<and> g_skip h' = 1)"
proof -
  have r0: "reaches short_game 0 (initial_game initial_board short_game)"
    by (rule reaches.start[OF setup_board_eq])
  have "case loop_body (initial_game initial_board short_game) of
          Some (MoveApplied g') \<Rightarrow> True | _ \<Rightarrow> False" by code_simp
  then obtain g' where g': "loop_body (initial_game initial_board short_game) = Some (MoveApplied g')"
    by (auto split: option.splits outcome.splits)
  have full: "wf_board (g_board full_black_game)" "is_board_full (g_board full_black_game)"
    "g_skip full_black_game = 0"
    by (simp_all add: full_black_game_def wf_board_def is_board_full_def list_all_length)
  from C5_skip_counter[OF r0, of full_black_game] g' full
  have a: "g_skip g' = 0" "\<exists>h'. loop_body full_black_game = Some (Skipped h') \<and> g_skip h' = 1"
    by blast+
  obtain g g1 g2 where g: "reaches short_game 9 g"
    "no_valid_moves (g_board g) (g_turn g) = Some (Inr True)"
    "loop_body g = Some (Skipped g1)" "reaches short_game 9 g1"
    "loop_body g1 = Some (Finished g2)"
    using short_game_states by metis
  from C5_skip_counter[OF g(1), of full_black_game] g(3) have b: "g_skip g = 0" "g_skip g1 = 1"
    by blast+
  from C5_skip_counter[OF g(4), of full_black_game] g(5) have c: "g_skip g2 = 2" by blast
  from r0 g' a g b c full show ?thesis by blast
qed

text \<open>
  C6: when the loop ends by two skips, the last string printed is the result of
  \<open>count_tokens_and_determine_winner\<close> on the final board, in one iteration and for
  \<open>play_game\<close> as a whole; that result is \<open>Black wins!\<close> when there are more black discs
  than white ones, \<open>White wins!\<close> when there are more white ones, and \<open>It's a tie!\<close> when
  the two counts are equal.
\<close>

theorem C6_winner:
  "(loop_body g = Some (Finished g') \<longrightarrow>
      g_board g' = g_board g \<and> g_output g' \<noteq> []
      \<and> last (g_output g') = count_tokens_and_determine_winner (g_board g'))
   \<and> (play_game inp = Some (Finished g') \<longrightarrow>
      g_skip g' = 2 \<and> g_output g' \<noteq> []
      \<and> last (g_output g') = count_tokens_and_determine_winner (g_board g'))
   \<and> count_tokens board (0, 0) = (int (black_count board), int (white_count board))
   \<and> (black_count board > white_count board
        \<longrightarrow> count_tokens_and_determine_winner board = ''Black wins!'')
   \<and> (white_count board > black_count board
        \<longrightarrow> count_tokens_and_determine_winner board = ''White wins!'')
   \<and> (black_count board = white_count board
        \<longrightarrow> count_tokens_and_determine_winner board = ''It's a tie!'')"
proof -
  have a: "g_board g' = g_board g \<and> g_output g' \<noteq> []
      \<and> last (g_output g') = count_tokens_and_determine_winner (g_board g')"
    if "loop_body g = Some (Finished g')" for g g'
    using loop_body_finished[OF that] by simp
  have b: "g_skip g' = 2 \<and> g_output g' \<noteq> []
      \<and> last (g_output g') = count_tokens_and_determine_winner (g_board g')"
    if "play_game inp = Some (Finished g')"
  proof -
    from play_game_finished[OF that] obtain n g0 where
      g0: "reaches inp n g0" "loop_body g0 = Some (Finished g')" by blast
    from reaches_finished[OF g0] a[OF g0(2)] show ?thesis by simp
  qed
  from a b count_tokens_counts[of board] winner_by_counts[of board] show ?thesis by simp
qed

theorem C6_winner_witness:
  "(\<exists>g'. play_game short_game = Some (Finished g')
        \<and> black_count (g_board g') = 13 \<and> white_count (g_board g') = 0
        \<and> last (g_output g') = ''Black wins!'')
   \<and> (\<exists>g g'. loop_body g = Some (Finished g') \<and> last (g_output g') = ''Black wins!'')
   \<and> white_count wrap_board > black_count wrap_board
   \<and> count_tokens_and_determine_winner wrap_board = ''White wins!''
   \<and> black_count initial_board = white_count initial_board
   \<and> count_tokens_and_determine_winner initial_board = ''It's a tie!''"
proof -
  obtain g1 g2 where g: "reaches short_game 9 g1" "loop_body g1 = Some (Finished g2)"
    "black_count (g_board g2) = 13" "white_count (g_board g2) = 0"
    using short_game_states by metis
  have "game_loop g1 = play_game short_game" by (rule reaches_game_loop[OF g(1)])
  then have pg: "play_game short_game = Some (Finished g2)"
    using g(2) by (subst (asm) game_loop.simps) simp
  note c6 = C6_winner[of g1 g2 short_game "g_board g2"]
  from c6 pg have l: "last (g_output g2) = count_tokens_and_determine_winner (g_board g2)"
    by blast
  have gt: "black_count (g_board g2) > white_count (g_board g2)" using g(3,4) by simp
  from c6 gt have "count_tokens_and_determine_winner (g_board g2) = ''Black wins!''" by blast
  with l have a: "last (g_output g2) = ''Black wins!''" by simp
  have w: "white_count wrap_board > black_count wrap_board"
    by (simp add: white_count_def black_count_def wrap_board_def)
  have t: "black_count initial_board = white_count initial_board"
    by (simp add: white_count_def black_count_def initial_board_def)
  from C6_winner[of g1 g2 short_game wrap_board] w
  have b: "count_tokens_and_determine_winner wrap_board = ''White wins!''" by blast
  from C6_winner[of g1 g2 short_game initial_board] t
  have c: "count_tokens_and_determine_winner initial_board = ''It's a tie!''" by blast
  from pg g a b c w t show ?thesis by blast
qed

text \<open>
  C8: an iteration that ends on a coordinate that does not parse or on a move that
  \<open>valid_move\<close> rejects leaves the board and the player to move as they were, has consumed
  one item of the input, and the next iteration asks the same player again (that player
  has a valid move, and the skip counter is 0 as it was at the prompt). A line that
  \<open>parse_coordinate\<close> rejects and a coordinate that \<open>valid_move\<close> rejects both lead there.
  \<open>valid_move\<close>, \<open>find_adjacent\<close> and \<open>is_flippable_line\<close> contain no assignment to the
  board: they are functions of the board, the colour and the coordinate, returning a truth
  value and no board, so two calls with the same arguments return the same result.
\<close>

theorem C8_rejected_input:
  "((loop_body g = Some (ParseRejected g') \<or> loop_body g = Some (MoveRejected g')) \<longrightarrow>
       g_board g' = g_board g \<and> g_turn g' = g_turn g \<and> g_skip g' = 0
     \<and> g_input g' = tl (g_input g)
     \<and> no_valid_moves (g_board g') (g_turn g') = Some (Inr False))
   \<and> (no_valid_moves (g_board g) (g_turn g) = Some (Inr False) \<and> g_input g = Line s # rest
       \<and> parse_coordinate (rstrip s) = Inl e
      \<longrightarrow> (\<exists>g1. loop_body g = Some (ParseRejected g1) \<and> g_board g1 = g_board g))
   \<and> (no_valid_moves (g_board g) (g_turn g) = Some (Inr False) \<and> g_input g = Line s # rest
       \<and> parse_coordinate (rstrip s) = Inr move
       \<and> valid_move (g_board g) (g_turn g) move = Some (Inr False)
      \<longrightarrow> (\<exists>g1. loop_body g = Some (MoveRejected g1) \<and> g_board g1 = g_board g))"
proof -
  have a: "g_board g' = g_board g \<and> g_turn g' = g_turn g \<and> g_skip g' = 0
     \<and> g_input g' = tl (g_input g)
     \<and> no_valid_moves (g_board g') (g_turn g') = Some (Inr False)"
    if "loop_body g = Some (ParseRejected g') \<or> loop_body g = Some (MoveRejected g')" for g'
    using that loop_body_rejected[of g _ g'] by auto
  have b: "\<exists>g1. loop_body g = Some (ParseRejected g1) \<and> g_board g1 = g_board g"
    if "no_valid_moves (g_board g) (g_turn g) = Some (Inr False) \<and> g_input g = Line s # rest
       \<and> parse_coordinate (rstrip s) = Inl e"
    using that loop_body_parse_error[of g s rest e] a by blast
  have c: "\<exists>g1. loop_body g = Some (MoveRejected g1) \<and> g_board g1 = g_board g"
    if "no_valid_moves (g_board g) (g_turn g) = Some (Inr False) \<and> g_input g = Line s # rest
       \<and> parse_coordinate (rstrip s) = Inr move
       \<and> valid_move (g_board g) (g_turn g) move = Some (Inr False)"
    using that loop_body_invalid_move[of g s rest move] a by blast
  from a[of g'] b c show ?thesis by blast
qed

theorem C8_rejected_input_witness:
  "no_valid_moves initial_board BLACK = Some (Inr False)
   \<and> parse_coordinate (rstrip ''zz'') = Inl (CoordinateParseError ''Row out of bounds'')
   \<and> (\<exists>g1. loop_body (initial_game initial_board [Line ''zz'', Line ''a1 '']) = Some (ParseRejected g1)
         \<and> g_board g1 = initial_board \<and> g_turn g1 = BLACK \<and> g_skip g1 = 0
         \<and> g_input g1 = [Line ''a1 ''])
   \<and> parse_coordinate (rstrip ''a1 '') = Inr (0, 0)
   \<and> valid_move initial_board BLACK (0, 0) = Some (Inr False)
   \<and> (\<exists>g1. loop_body (initial_game initial_board [Line ''a1 '']) = Some (MoveRejected g1)
         \<and> g_board g1 = initial_board \<and> g_turn g1 = BLACK \<and> g_skip g1 = 0 \<and> g_input g1 = [])"
proof -
  let ?g = "initial_game initial_board [Line ''zz'', Line ''a1 '']"
  let ?h = "initial_game initial_board [Line ''a1 '']"
  have nv: "no_valid_moves initial_board BLACK = Some (Inr False)" by code_simp
  have p1: "parse_coordinate (rstrip ''zz'') = Inl (CoordinateParseError ''Row out of bounds'')"
    by code_simp
  have p2: "parse_coordinate (rstrip ''a1 '') = Inr (0, 0)" by code_simp
  have v: "valid_move initial_board BLACK (0, 0) = Some (Inr False)" by code_simp
  from C8_rejected_input[of ?g _ "''zz''" "[Line ''a1 '']" "CoordinateParseError ''Row out of bounds''"] nv p1
  obtain g1 where g1: "loop_body ?g = Some (ParseRejected g1)"
    by (auto simp: initial_game_def)
  from C8_rejected_input[of ?g g1] g1
  have a: "g_board g1 = initial_board \<and> g_turn g1 = BLACK \<and> g_skip g1 = 0 \<and> g_input g1 = [Line ''a1 '']"
    by (simp add: initial_game_def)
  from C8_rejected_input[of ?h _ "''a1 ''" "[]" _ "(0, 0)"] nv p2 v
  obtain h1 where h1: "loop_body ?h = Some (MoveRejected h1)"
    by (auto simp: initial_game_def)
  from C8_rejected_input[of ?h h1] h1
  have b: "g_board h1 = initial_board \<and> g_turn h1 = BLACK \<and> g_skip h1 = 0 \<and> g_input h1 = []"
    by (simp add: initial_game_def)
  from nv p1 p2 v g1 a h1 b show ?thesis by blast
qed

end
